theory Spec2Isabelle
  imports Main "HOL-Library.Multiset" "HOL-Library.AList"
begin

section \<open>Data model\<close>

text \<open>
  Values of the remote records. A record is a JavaScript object that came out of a JSON
  response: its fields with their values, in the order of the object's keys. Reading a
  field that is absent gives \<open>undefined\<close>; assigning to a field replaces its value
  where it stands, or adds the field at the end. Numbers are kept as integers (no claim
  depends on fractions).
\<close>

datatype jsval =
    JUndefined
  | JNull
  | JBool bool
  | JNum int
  | JStr string
  | JArr "jsval list"
  | JObj "(string \<times> jsval) list"

type_synonym jsobject = "(string \<times> jsval) list"

definition getField :: "jsobject \<Rightarrow> string \<Rightarrow> jsval" where
  "getField ob k = (case map_of ob k of None \<Rightarrow> JUndefined | Some v \<Rightarrow> v)"

definition setField :: "jsobject \<Rightarrow> string \<Rightarrow> jsval \<Rightarrow> jsobject" where
  "setField ob k v = AList.update k v ob"

text \<open>JavaScript truthiness, as \<open>if (x)\<close>, \<open>!x\<close> and \<open>x || y\<close> read a value.\<close>

fun truthy :: "jsval \<Rightarrow> bool" where
  "truthy JUndefined = False"
| "truthy JNull = False"
| "truthy (JBool b) = b"
| "truthy (JNum n) = (n \<noteq> 0)"
| "truthy (JStr s) = (s \<noteq> [])"
| "truthy (JArr xs) = True"
| "truthy (JObj ob) = True"

text \<open>What a rejected promise or a thrown exception carries.\<close>

datatype error = TypeError | Rejected string

record typeInfo =
  singularName :: string
  pluralName :: string
  nodesTypeName :: string

text \<open>
  The per-type settings the orchestrator reads. \<open>exclude\<close> and \<open>lazyNodes\<close> are
  only ever tested for truthiness, so they are booleans here.
\<close>

record settings =
  exclude :: bool
  lazyNodes :: bool

record queryInfo =
  typeInfo :: typeInfo
  nodeListQueries :: "string list"
  settings :: settings

record contentNodeGroup =
  singular :: string
  plural :: string
  allNodesOfContentType :: "jsobject list"

text \<open>The arguments of one call of \<open>paginatedWpNodeFetch\<close>.\<close>

record fetchArgs =
  first :: nat
  after :: "string option"
  contentTypePlural :: string
  nodeTypeName :: string
  query :: string
  url :: string
  fetchSettings :: settings

record pluginOptions =
  optUrl :: string
  verbose :: bool
  mediaItemLazyNodes :: bool

text \<open>The arguments of the \<open>beforeChangeNode\<close> hook that carry data.\<close>

record hookArgs =
  actionType :: string
  remoteNode :: jsobject
  hookType :: jsval

record typeSettings =
  beforeChangeNode :: "(hookArgs \<Rightarrow> error + jsval) option"

text \<open>The key of the cache entry; its text is in a module that is not modelled.\<close>

datatype cacheKey = CREATED_NODE_IDS

text \<open>
  Everything the three source files import and call but do not define: the store, the
  host's helpers, the libraries. A promise that rejects is \<open>Inl\<close>.
  \<^item> \<open>nodeQueries\<close>: \<open>Object.values(store.getState().remoteSchema.nodeQueries)\<close>;
  \<^item> \<open>GATSBY_CONCURRENT_DOWNLOAD\<close>: the environment variable, \<open>None\<close> when unset;
  \<^item> \<open>toInteger\<close>: lodash's conversion of the chunk size;
  \<^item> \<open>paginatedWpNodeFetch\<close>: all the records of one list query, page after page, or
    the rejection of a page fetch;
  \<^item> \<open>latency\<close>: how long the type-level fetch of an entry takes, which decides the
    order in which the fetches of one batch complete;
  \<^item> \<open>fetchGraphql\<close>: the query for \<open>generalSettings.url\<close> at the start of
    \<open>createGatsbyNodesFromWPGQLContentNodes\<close> and the expression built from its answer:
    \<open>Inl\<close> when the query rejects, the answer has no url or the expression is malformed;
  \<^item> \<open>stringify\<close>, \<open>urlToPath\<close>, \<open>createContentDigest\<close>, \<open>buildTypeName\<close>: the library and
    the helpers of these names; a serialization is the list of its characters;
  \<^item> \<open>getTypeSettingsByType\<close>: the settings of a record's type, \<open>None\<close> when there are
    none; their \<open>beforeChangeNode\<close> is \<open>None\<close> unless it is a function;
  \<^item> \<open>schedule\<close>: the order in which the event loop resumes the units of work that
    are in flight (see \<open>runQueue\<close>).
  The activity timers of the reporter only observe the run; of their calls, the one
  that reports the count of side-effect ids is kept, as the event \<open>SetStatus\<close>.
\<close>

record env =
  nodeQueries :: "queryInfo list"
  pluginOptions :: pluginOptions
  GATSBY_CONCURRENT_DOWNLOAD :: "string option"
  toInteger :: "string \<Rightarrow> int"
  paginatedWpNodeFetch :: "fetchArgs \<Rightarrow> error + jsobject list"
  latency :: "queryInfo \<Rightarrow> nat"
  fetchGraphql :: "error + string"
  stringify :: "jsobject \<Rightarrow> string"
  urlToPath :: "jsval \<Rightarrow> jsval"
  createContentDigest :: "jsobject \<Rightarrow> jsval"
  buildTypeName :: "jsval \<Rightarrow> jsval"
  getTypeSettingsByType :: "jsval \<Rightarrow> typeSettings option"
  createNode :: "jsobject \<Rightarrow> error + unit"
  fetchReferencedMediaItemsAndCreateNodes :: "string list \<Rightarrow> error + unit"
  schedule :: "nat list"
  cacheSet :: "cacheKey \<Rightarrow> jsval list \<Rightarrow> error + unit"

text \<open>
  What the run does to the outside, in the order it does it. \<open>FetchStart\<close> is the call
  of \<open>fetchWPGQLContentNodes\<close> for an entry, \<open>FetchEnd\<close> its promise resolving,
  \<open>FetchFailed\<close> its promise rejecting.
\<close>

datatype event =
    FetchStart queryInfo
  | FetchEnd queryInfo
  | FetchFailed queryInfo error
  | FetchGraphql
  | HookCall hookArgs
  | SetStatus nat
  | CreateNode jsobject
  | FetchReferenced "string list"
  | CacheSet cacheKey "jsval list"

section \<open>The content-type orchestrator\<close>

text \<open>
  The loop of \<open>fetchWPGQLContentNodes\<close> over the list queries of one entry. Each list
  query is awaited before the next is sent; a rejection ends the loop.
\<close>

definition pageArgs :: "env \<Rightarrow> queryInfo \<Rightarrow> string \<Rightarrow> fetchArgs" where
  "pageArgs e qi nodeListQuery =
     \<lparr> first = 100, after = None,
       contentTypePlural = pluralName (typeInfo qi),
       nodeTypeName = nodesTypeName (typeInfo qi),
       query = nodeListQuery,
       url = optUrl (pluginOptions e),
       fetchSettings = settings qi \<rparr>"

fun fetchListQueries :: "env \<Rightarrow> queryInfo \<Rightarrow> string list \<Rightarrow> jsobject list \<Rightarrow> error + jsobject list" where
  "fetchListQueries e qi [] allNodes = Inr allNodes"
| "fetchListQueries e qi (nodeListQuery # rest) allNodes =
     (case paginatedWpNodeFetch e (pageArgs e qi nodeListQuery) of
        Inl err \<Rightarrow> Inl err
      | Inr contentNodes \<Rightarrow> fetchListQueries e qi rest (allNodes @ contentNodes))"

text \<open>\<open>fetchWPGQLContentNodes\<close>: the group of the entry, or \<open>false\<close> (here \<open>None\<close>).\<close>

definition fetchWPGQLContentNodes :: "env \<Rightarrow> queryInfo \<Rightarrow> error + contentNodeGroup option" where
  "fetchWPGQLContentNodes e qi =
     (case fetchListQueries e qi (nodeListQueries qi) [] of
        Inl err \<Rightarrow> Inl err
      | Inr allNodes \<Rightarrow>
          if allNodes \<noteq> []
          then Inr (Some \<lparr> singular = singularName (typeInfo qi),
                           plural = pluralName (typeInfo qi),
                           allNodesOfContentType = allNodes \<rparr>)
          else Inr None)"

definition getContentTypeQueryInfos :: "env \<Rightarrow> queryInfo list" where
  "getContentTypeQueryInfos e = filter (\<lambda>qi. \<not> exclude (settings qi)) (nodeQueries e)"

text \<open>lodash's \<open>chunk\<close>, after the size has been converted to an integer.\<close>

function chunk :: "'a list \<Rightarrow> nat \<Rightarrow> 'a list list" where
  "chunk xs n = (if xs = [] \<or> n < 1 then [] else take n xs # chunk (drop n xs) n)"
  by pat_completeness auto
termination
  by (relation "measure (\<lambda>(xs, n). length xs)") auto

declare chunk.simps [simp del]

text \<open>\<open>process.env.GATSBY_CONCURRENT_DOWNLOAD || 50\<close>, then \<open>max(toInteger(size), 0)\<close>.\<close>

definition chunkSize :: "env \<Rightarrow> nat" where
  "chunkSize e =
     (case GATSBY_CONCURRENT_DOWNLOAD e of
        None \<Rightarrow> 50
      | Some v \<Rightarrow> if v \<noteq> [] then nat (max (toInteger e v) 0) else 50)"

text \<open>The test that makes the callback of an entry return without fetching.\<close>

definition skipUpfront :: "queryInfo \<Rightarrow> bool" where
  "skipUpfront qi =
     (lazyNodes (settings qi) \<or>
      (\<not> lazyNodes (settings qi) \<and> nodesTypeName (typeInfo qi) = ''MediaItem''))"

record fetchState =
  contentNodeGroups :: "contentNodeGroup list"
  fetchTrace :: "event list"

text \<open>
  The join of one batch. The fetches of the batch are taken in the order in which they
  complete. A group is pushed when its fetch resolves to one; the first rejection
  rejects \<open>Promise.all\<close> and with it the whole function.
\<close>

fun joinBatch :: "env \<Rightarrow> queryInfo list \<Rightarrow> fetchState \<Rightarrow> (error + unit) \<times> fetchState" where
  "joinBatch e [] s = (Inr (), s)"
| "joinBatch e (qi # rest) s =
     (case fetchWPGQLContentNodes e qi of
        Inl err \<Rightarrow> (Inl err, s\<lparr>fetchTrace := fetchTrace s @ [FetchFailed qi err]\<rparr>)
      | Inr None \<Rightarrow> joinBatch e rest (s\<lparr>fetchTrace := fetchTrace s @ [FetchEnd qi]\<rparr>)
      | Inr (Some contentNodeGroup) \<Rightarrow>
          joinBatch e rest
            (s\<lparr>contentNodeGroups := contentNodeGroups s @ [contentNodeGroup],
               fetchTrace := fetchTrace s @ [FetchEnd qi]\<rparr>))"

text \<open>
  One iteration of the loop over the chunks: \<open>queries.map\<close> calls every callback in
  order, so every fetch of the batch starts before any of them completes; then the join.
\<close>

definition fetched :: "queryInfo list \<Rightarrow> queryInfo list" where
  "fetched queries = filter (\<lambda>qi. \<not> skipUpfront qi) queries"

definition runBatch :: "env \<Rightarrow> queryInfo list \<Rightarrow> fetchState \<Rightarrow> (error + unit) \<times> fetchState" where
  "runBatch e queries s =
     joinBatch e (sort_key (latency e) (fetched queries))
       (s\<lparr>fetchTrace := fetchTrace s @ map FetchStart (fetched queries)\<rparr>)"

fun runBatches :: "env \<Rightarrow> queryInfo list list \<Rightarrow> fetchState \<Rightarrow> (error + unit) \<times> fetchState" where
  "runBatches e [] s = (Inr (), s)"
| "runBatches e (queries # rest) s =
     (case runBatch e queries s of
        (Inl err, s') \<Rightarrow> (Inl err, s')
      | (Inr u, s') \<Rightarrow> runBatches e rest s')"

definition chunkedQueries :: "env \<Rightarrow> queryInfo list list" where
  "chunkedQueries e = chunk (getContentTypeQueryInfos e) (chunkSize e)"

definition fetchWPGQLContentNodesByContentType :: "env \<Rightarrow> (error + contentNodeGroup list) \<times> event list" where
  "fetchWPGQLContentNodesByContentType e =
     (case runBatches e (chunkedQueries e)
             \<lparr> contentNodeGroups = [], fetchTrace = [] \<rparr> of
        (Inl err, s) \<Rightarrow> (Inl err, fetchTrace s)
      | (Inr u, s) \<Rightarrow> (Inr (contentNodeGroups s), fetchTrace s))"

section \<open>The node materialization engine\<close>

subsection \<open>The scan for referenced media items\<close>

text \<open>
  The regular expression of the scan is \<open>/"id":"([^"]*)","sourceUrl"/gm\<close>. The
  pieces of it that are literal text:
\<close>

definition dquote :: char where
  "dquote = CHR 0x22"

definition idOpen :: string where
  "idOpen = [dquote] @ ''id'' @ [dquote] @ '':'' @ [dquote]"

definition idClose :: string where
  "idClose = [dquote] @ '','' @ [dquote] @ ''sourceUrl'' @ [dquote]"

fun stripPrefix :: "string \<Rightarrow> string \<Rightarrow> string option" where
  "stripPrefix [] s = Some s"
| "stripPrefix (p # ps) [] = None"
| "stripPrefix (p # ps) (c # cs) = (if p = c then stripPrefix ps cs else None)"

record regexMatch =
  match :: string
  subMatches :: "string list"

text \<open>
  One attempt of the expression at the start of \<open>s\<close>: the matched text with its
  captured group, and what follows the match. The group \<open>[^"]*\<close> is greedy and the
  expression goes on with a double quote, so the group is the longest run without one:
  giving characters back cannot help, none of them is a double quote.
\<close>

definition matchAt :: "string \<Rightarrow> (regexMatch \<times> string) option" where
  "matchAt s =
     (case stripPrefix idOpen s of
        None \<Rightarrow> None
      | Some r \<Rightarrow>
          (case stripPrefix idClose (dropWhile (\<lambda>c. c \<noteq> dquote) r) of
             None \<Rightarrow> None
           | Some rest \<Rightarrow>
               Some (\<lparr> match = take (length s - length rest) s,
                       subMatches = [takeWhile (\<lambda>c. c \<noteq> dquote) r] \<rparr>, rest)))"

lemma stripPrefix_length: "stripPrefix p s = Some r \<Longrightarrow> length s = length p + length r"
  by (induction p s rule: stripPrefix.induct) (auto split: if_splits)

lemma matchAt_shorter: "matchAt s = Some (m, rest) \<Longrightarrow> length rest < length s"
proof -
  assume a: "matchAt s = Some (m, rest)"
  from a obtain r where r: "stripPrefix idOpen s = Some r"
    by (auto simp: matchAt_def split: option.splits)
  from a r have c: "stripPrefix idClose (dropWhile (\<lambda>c. c \<noteq> dquote) r) = Some rest"
    by (auto simp: matchAt_def split: option.splits)
  have "length rest \<le> length (dropWhile (\<lambda>c. c \<noteq> dquote) r)"
    using stripPrefix_length [OF c] by simp
  also have "\<dots> \<le> length r"
    by (rule length_dropWhile_le)
  also have "\<dots> < length s"
    using stripPrefix_length [OF r] by (simp add: idOpen_def)
  finally show ?thesis .
qed

text \<open>
  \<open>execall\<close> with this expression: every match of the global expression, from left to
  right, each search starting where the last match ended.
\<close>

function execall :: "string \<Rightarrow> regexMatch list" where
  "execall s =
     (if s = [] then []
      else (case matchAt s of
              Some (m, rest) \<Rightarrow> m # execall rest
            | None \<Rightarrow> execall (tl s)))"
  by pat_completeness auto
termination
  by (relation "measure length") (auto simp: matchAt_shorter)

declare execall.simps [simp del]

text \<open>\<open>match.subMatches[0]\<close>; the expression has one group, so it is there.\<close>

definition firstSubMatch :: "regexMatch \<Rightarrow> string" where
  "firstSubMatch m = (case subMatches m of [] \<Rightarrow> [] | g # gs \<Rightarrow> g)"

text \<open>A JavaScript \<open>Set\<close> of strings: its elements in the order they were first added.\<close>

definition setAdd :: "string list \<Rightarrow> string \<Rightarrow> string list" where
  "setAdd xs x = (if x \<in> set xs then xs else xs @ [x])"

subsection \<open>One unit of work\<close>

text \<open>
  The state the units of one run share: the ledger \<open>createdNodeIds\<close>, the counter list
  \<open>totalSideEffectNodes\<close>, the set \<open>referencedMediaItemNodeIds\<close>, what the run has done
  to the outside so far, and the rejections of units. The promise that the queue returns
  for a unit is dropped by the caller, so the rejection of a unit reaches nobody in
  this code.
\<close>

record nodeState =
  createdNodeIds :: "jsval list"
  totalSideEffectNodes :: "jsval list"
  referencedMediaItemNodeIds :: "string list"
  nodeTrace :: "event list"
  unhandledRejections :: "error list"

text \<open>\<open>if (node.link) node.path = urlToPath(node.link)\<close>: the record itself is changed.\<close>

definition derivePath :: "env \<Rightarrow> jsobject \<Rightarrow> jsobject" where
  "derivePath e node =
     (if truthy (getField node ''link'')
      then setField node ''path'' (urlToPath e (getField node ''link''))
      else node)"

definition matchedIds :: "env \<Rightarrow> jsobject \<Rightarrow> string list" where
  "matchedIds e node =
     filter (\<lambda>i. JStr i \<noteq> getField node ''id'')
       (map firstSubMatch (execall (stringify e node)))"

definition scanReferences :: "env \<Rightarrow> contentNodeGroup \<Rightarrow> jsobject \<Rightarrow> string list \<Rightarrow> string list" where
  "scanReferences e wpgqlNodesGroup node refs =
     (if plural wpgqlNodesGroup \<noteq> ''mediaItems''
      then (if \<not> mediaItemLazyNodes (pluginOptions e)
            then foldl setAdd refs (matchedIds e node)
            else refs)
      else refs)"

text \<open>
  The object literal \<open>{ ...node, id: node.id, parent: null, internal: { ... } }\<close>: the
  fields of the record, then the three assignments in their order.
\<close>

definition buildRemoteNode :: "env \<Rightarrow> jsobject \<Rightarrow> jsobject" where
  "buildRemoteNode e node =
     setField
       (setField
          (setField node ''id'' (getField node ''id''))
          ''parent'' JNull)
       ''internal''
       (JObj [(''contentDigest'', createContentDigest e node),
              (''type'', buildTypeName e (getField node ''type''))])"

text \<open>The hook of the record's type, when its settings have one that is a function.\<close>

definition hookOf :: "env \<Rightarrow> jsobject \<Rightarrow> (hookArgs \<Rightarrow> error + jsval) option" where
  "hookOf e node =
     (case getTypeSettingsByType e (getField node ''type'') of
        None \<Rightarrow> None
      | Some ts \<Rightarrow> beforeChangeNode ts)"

definition hookArgsOf :: "jsobject \<Rightarrow> jsobject \<Rightarrow> hookArgs" where
  "hookArgsOf node rn =
     \<lparr> actionType = ''CREATE_ALL'', remoteNode = rn, hookType = getField node ''type'' \<rparr>"

text \<open>
  A unit runs in up to three pieces, cut at its two \<open>await\<close>s. Between two pieces of a
  unit, pieces of other units may run. A unit is either still in the queue, or waits for
  its hook, or waits for \<open>actions.createNode\<close>.
\<close>

datatype task =
    Queued jsobject contentNodeGroup
  | AwaitingHook jsobject jsobject "hookArgs \<Rightarrow> error + jsval"
  | AwaitingCreateNode jsobject jsobject

text \<open>From the start of the unit to its first \<open>await\<close>.\<close>

definition startUnit :: "env \<Rightarrow> jsobject \<Rightarrow> contentNodeGroup \<Rightarrow> nodeState \<Rightarrow> task option \<times> nodeState" where
  "startUnit e node0 wpgqlNodesGroup s =
     (let node = derivePath e node0;
          s1 = s\<lparr>referencedMediaItemNodeIds :=
                   scanReferences e wpgqlNodesGroup node (referencedMediaItemNodeIds s)\<rparr>;
          rn = buildRemoteNode e node
      in (case hookOf e node of
            Some hook \<Rightarrow>
              (Some (AwaitingHook node rn hook),
               s1\<lparr>nodeTrace := nodeTrace s1 @ [HookCall (hookArgsOf node rn)]\<rparr>)
          | None \<Rightarrow>
              (Some (AwaitingCreateNode node rn),
               s1\<lparr>nodeTrace := nodeTrace s1 @ [CreateNode rn]\<rparr>)))"

text \<open>\<open>const { additionalNodeIds } = (await ...) || {}\<close>\<close>

definition additionalNodeIdsOf :: "jsval \<Rightarrow> jsval" where
  "additionalNodeIdsOf result =
     (if truthy result
      then (case result of JObj ob \<Rightarrow> getField ob ''additionalNodeIds'' | _ \<Rightarrow> JUndefined)
      else JUndefined)"

text \<open>\<open>additionalNodeIds?.length\<close>\<close>

fun optLength :: "jsval \<Rightarrow> jsval" where
  "optLength (JArr xs) = JNum (int (length xs))"
| "optLength (JStr s) = JNum (int (length s))"
| "optLength (JObj ob) = getField ob ''length''"
| "optLength v = JUndefined"

text \<open>
  The \<open>forEach\<close> that pushes each id on the ledger and on the counter list
  (\<open>push\<close> returns the new length, which is never zero, so the second push always runs).
  A value with a truthy length that is not an array has no \<open>forEach\<close>.
\<close>

definition pushAdditional :: "jsval \<Rightarrow> nodeState \<Rightarrow> error + nodeState" where
  "pushAdditional additionalNodeIds s =
     (if truthy (optLength additionalNodeIds)
      then (case additionalNodeIds of
              JArr ids \<Rightarrow>
                Inr (s\<lparr>createdNodeIds := createdNodeIds s @ ids,
                       totalSideEffectNodes := totalSideEffectNodes s @ ids\<rparr>)
            | _ \<Rightarrow> Inl TypeError)
      else Inr s)"

text \<open>From the hook's promise settling to the \<open>await\<close> of \<open>actions.createNode\<close>.\<close>

definition afterHook :: "env \<Rightarrow> jsobject \<Rightarrow> jsobject \<Rightarrow> (hookArgs \<Rightarrow> error + jsval) \<Rightarrow> nodeState \<Rightarrow> task option \<times> nodeState" where
  "afterHook e node rn hook s =
     (case hook (hookArgsOf node rn) of
        Inl err \<Rightarrow> (None, s\<lparr>unhandledRejections := unhandledRejections s @ [err]\<rparr>)
      | Inr result \<Rightarrow>
          (case pushAdditional (additionalNodeIdsOf result) s of
             Inl err \<Rightarrow> (None, s\<lparr>unhandledRejections := unhandledRejections s @ [err]\<rparr>)
           | Inr s1 \<Rightarrow>
               (Some (AwaitingCreateNode node rn),
                s1\<lparr>nodeTrace := nodeTrace s1 @
                      [SetStatus (length (totalSideEffectNodes s1)), CreateNode rn]\<rparr>)))"

text \<open>From the promise of \<open>actions.createNode\<close> settling to the end of the unit.\<close>

definition afterCreateNode :: "env \<Rightarrow> jsobject \<Rightarrow> jsobject \<Rightarrow> nodeState \<Rightarrow> task option \<times> nodeState" where
  "afterCreateNode e node rn s =
     (case createNode e rn of
        Inl err \<Rightarrow> (None, s\<lparr>unhandledRejections := unhandledRejections s @ [err]\<rparr>)
      | Inr u \<Rightarrow> (None, s\<lparr>createdNodeIds := createdNodeIds s @ [getField node ''id'']\<rparr>))"

fun stepTask :: "env \<Rightarrow> task \<Rightarrow> nodeState \<Rightarrow> task option \<times> nodeState" where
  "stepTask e (Queued node wpgqlNodesGroup) s = startUnit e node wpgqlNodesGroup s"
| "stepTask e (AwaitingHook node rn hook) s = afterHook e node rn hook s"
| "stepTask e (AwaitingCreateNode node rn) s = afterCreateNode e node rn s"

subsection \<open>The queue\<close>

fun remaining :: "task \<Rightarrow> nat" where
  "remaining (Queued node wpgqlNodesGroup) = 3"
| "remaining (AwaitingHook node rn hook) = 2"
| "remaining (AwaitingCreateNode node rn) = 1"

definition optTask :: "task option \<Rightarrow> task list" where
  "optTask t = (case t of None \<Rightarrow> [] | Some t' \<Rightarrow> [t'])"

text \<open>\<open>new PQueue({ concurrency: 2 })\<close>\<close>

definition concurrency :: nat where
  "concurrency = 2"

definition choice :: "nat list \<Rightarrow> nat" where
  "choice sched = (case sched of [] \<Rightarrow> 0 | c # cs \<Rightarrow> c)"

lemma stepTask_remaining:
  "stepTask e t s = (t', s') \<Longrightarrow> sum_list (map remaining (optTask t')) < remaining t"
  by (cases t)
     (auto simp: startUnit_def afterHook_def afterCreateNode_def optTask_def Let_def
           split: option.splits sum.splits)

lemma replace_remaining:
  assumes "i < length running" "sum_list (map remaining ts) < remaining (running ! i)"
  shows "sum_list (map remaining (take i running @ ts @ drop (Suc i) running))
         < sum_list (map remaining running)"
proof -
  have "running = take i running @ running ! i # drop (Suc i) running"
    using assms(1) by (rule id_take_nth_drop)
  then have "sum_list (map remaining running) =
      sum_list (map remaining (take i running)) + remaining (running ! i)
      + sum_list (map remaining (drop (Suc i) running))"
    by (metis add.assoc map_append list.simps(9) sum_list.Cons sum_list.append)
  with assms(2) show ?thesis by simp
qed

text \<open>
  The queue until it is idle. \<open>running\<close> are the units in flight, at most
  \<open>concurrency\<close> of them, \<open>waiting\<close> the units not started, in the order they were
  added. Each step runs one piece of one unit: the first piece of the next waiting unit
  when a slot is free, or the next piece of a unit in flight. Which one is the event
  loop's choice, read from the schedule (an exhausted schedule reads as 0): with a free
  slot, 0 starts the next unit; otherwise the number picks the unit in flight. The queue
  of the library starts a unit as soon as a slot is free, which is the schedule of
  zeros wherever a start is possible. A unit that rejects leaves the queue like one
  that resolves.
\<close>

function runQueue :: "env \<Rightarrow> nat list \<Rightarrow> task list \<Rightarrow> task list \<Rightarrow> nodeState \<Rightarrow> nodeState" where
  "runQueue e sched running waiting s =
     (if running = [] \<and> waiting = [] then s
      else if waiting \<noteq> [] \<and> length running < concurrency \<and> (running = [] \<or> choice sched = 0)
      then (case stepTask e (hd waiting) s of
              (t', s') \<Rightarrow> runQueue e (tl sched) (running @ optTask t') (tl waiting) s')
      else (case stepTask e (running ! (choice sched mod length running)) s of
              (t', s') \<Rightarrow>
                runQueue e (tl sched)
                  (take (choice sched mod length running) running @ optTask t' @
                   drop (Suc (choice sched mod length running)) running)
                  waiting s'))"
  by pat_completeness auto
termination
  apply (relation "measure (\<lambda>(e, sched, running, waiting, s).
          sum_list (map remaining running) + sum_list (map remaining waiting))")
  apply simp
  subgoal for e sched running waiting s x1 x2
    using stepTask_remaining [of e "hd waiting" s x1 x2]
    by (cases waiting) auto
  subgoal for e sched running waiting s x1 x2
    using replace_remaining [of "choice sched mod length running" running "optTask x1"]
          stepTask_remaining [of e "running ! (choice sched mod length running)" s x1 x2]
    by (cases "running = []") (auto simp: concurrency_def)
  done

declare runQueue.simps [simp del]

subsection \<open>\<open>createGatsbyNodesFromWPGQLContentNodes\<close>\<close>

definition initialNodeState :: nodeState where
  "initialNodeState =
     \<lparr> createdNodeIds = [], totalSideEffectNodes = [], referencedMediaItemNodeIds = [],
       nodeTrace = [], unhandledRejections = [] \<rparr>"

text \<open>The two nested loops that add one unit per record of every group.\<close>

definition queueTasks :: "contentNodeGroup list \<Rightarrow> task list" where
  "queueTasks wpgqlNodesByContentType =
     concat (map (\<lambda>wpgqlNodesGroup.
                    map (\<lambda>node. Queued node wpgqlNodesGroup)
                      (allNodesOfContentType wpgqlNodesGroup))
                 wpgqlNodesByContentType)"

text \<open>What follows \<open>await createNodesQueue.onIdle()\<close>.\<close>

definition afterIdle :: "env \<Rightarrow> nodeState \<Rightarrow> (error + jsval list) \<times> nodeState" where
  "afterIdle e s =
     (let referencedMediaItemNodeIdsArray = referencedMediaItemNodeIds s
      in if \<not> mediaItemLazyNodes (pluginOptions e) \<and> referencedMediaItemNodeIdsArray \<noteq> []
         then (case fetchReferencedMediaItemsAndCreateNodes e referencedMediaItemNodeIdsArray of
                 Inl err \<Rightarrow>
                   (Inl err,
                    s\<lparr>nodeTrace := nodeTrace s @ [FetchReferenced referencedMediaItemNodeIdsArray]\<rparr>)
               | Inr u \<Rightarrow>
                   (Inr (createdNodeIds s @ map JStr referencedMediaItemNodeIdsArray),
                    s\<lparr>nodeTrace := nodeTrace s @ [FetchReferenced referencedMediaItemNodeIdsArray]\<rparr>))
         else (Inr (createdNodeIds s), s))"

definition createGatsbyNodesFromWPGQLContentNodes :: "env \<Rightarrow> contentNodeGroup list \<Rightarrow> (error + jsval list) \<times> nodeState" where
  "createGatsbyNodesFromWPGQLContentNodes e wpgqlNodesByContentType =
     (let s0 = initialNodeState\<lparr>nodeTrace := [FetchGraphql]\<rparr>
      in (case fetchGraphql e of
            Inl err \<Rightarrow> (Inl err, s0)
          | Inr wpUrl \<Rightarrow>
              afterIdle e (runQueue e (schedule e) [] (queueTasks wpgqlNodesByContentType) s0)))"

section \<open>The ingestion driver\<close>

definition fetchAndCreateAllNodes :: "env \<Rightarrow> (error + unit) \<times> event list" where
  "fetchAndCreateAllNodes e =
     (case fetchWPGQLContentNodesByContentType e of
        (Inl err, tr) \<Rightarrow> (Inl err, tr)
      | (Inr wpgqlNodesByContentType, tr) \<Rightarrow>
          (case createGatsbyNodesFromWPGQLContentNodes e wpgqlNodesByContentType of
             (Inl err, s) \<Rightarrow> (Inl err, tr @ nodeTrace s)
           | (Inr ids, s) \<Rightarrow>
               (case cacheSet e CREATED_NODE_IDS ids of
                  Inl err \<Rightarrow> (Inl err, tr @ nodeTrace s @ [CacheSet CREATED_NODE_IDS ids])
                | Inr u \<Rightarrow> (Inr (), tr @ nodeTrace s @ [CacheSet CREATED_NODE_IDS ids]))))"

section \<open>Reading a run\<close>

text \<open>The events of a batch whose fetches all resolve.\<close>

definition batchEvents :: "env \<Rightarrow> queryInfo list \<Rightarrow> event list" where
  "batchEvents e queries =
     map FetchStart (fetched queries) @ map FetchEnd (sort_key (latency e) (fetched queries))"

text \<open>The entries whose fetch a trace starts, in the order of the starts.\<close>

fun startedEntry :: "event \<Rightarrow> queryInfo list" where
  "startedEntry (FetchStart qi) = [qi]"
| "startedEntry ev = []"

definition fetchStarts :: "event list \<Rightarrow> queryInfo list" where
  "fetchStarts tr = concat (map startedEntry tr)"

text \<open>The entries whose fetch a trace sees resolve.\<close>

fun endedEntry :: "event \<Rightarrow> queryInfo list" where
  "endedEntry (FetchEnd qi) = [qi]"
| "endedEntry ev = []"

definition fetchEnds :: "event list \<Rightarrow> queryInfo list" where
  "fetchEnds tr = concat (map endedEntry tr)"

text \<open>The events of the orchestrator, and the events of the units of work.\<close>

fun fetchEvent :: "event \<Rightarrow> bool" where
  "fetchEvent (FetchStart qi) = True"
| "fetchEvent (FetchEnd qi) = True"
| "fetchEvent (FetchFailed qi err) = True"
| "fetchEvent ev = False"

fun unitEvent :: "event \<Rightarrow> bool" where
  "unitEvent (HookCall args) = True"
| "unitEvent (SetStatus n) = True"
| "unitEvent (CreateNode rn) = True"
| "unitEvent ev = False"

text \<open>
  A node is built from the groups when it is the node that \<open>createNodeWithSideEffects\<close>
  builds for one of their records; a unit of work is from the groups when its record is
  one of theirs, or the node it carries is built from them.
\<close>

definition builtFrom :: "env \<Rightarrow> contentNodeGroup list \<Rightarrow> jsobject \<Rightarrow> bool" where
  "builtFrom e groups rn =
     (\<exists>g \<in> set groups. \<exists>node \<in> set (allNodesOfContentType g).
        rn = buildRemoteNode e (derivePath e node))"

fun taskFrom :: "env \<Rightarrow> contentNodeGroup list \<Rightarrow> task \<Rightarrow> bool" where
  "taskFrom e groups (Queued node g) = (g \<in> set groups \<and> node \<in> set (allNodesOfContentType g))"
| "taskFrom e groups (AwaitingHook node rn hook) = builtFrom e groups rn"
| "taskFrom e groups (AwaitingCreateNode node rn) = builtFrom e groups rn"

text \<open>
  The ids that the \<open>forEach\<close> over \<open>additionalNodeIds\<close> pushes, or the \<open>TypeError\<close> of
  a value with a truthy length that is not an array.
\<close>

definition reportedIds :: "jsval \<Rightarrow> error + jsval list" where
  "reportedIds additionalNodeIds =
     (if truthy (optLength additionalNodeIds)
      then (case additionalNodeIds of JArr ids \<Rightarrow> Inr ids | _ \<Rightarrow> Inl TypeError)
      else Inr [])"

text \<open>
  What a unit of work will still append to the ledger from where it stands, given what
  its hook and the commit of its node answer.
\<close>

definition owedAfterCreate :: "env \<Rightarrow> jsobject \<Rightarrow> jsobject \<Rightarrow> jsval list" where
  "owedAfterCreate e node rn =
     (case createNode e rn of Inl err \<Rightarrow> [] | Inr u \<Rightarrow> [getField node ''id''])"

definition owedAfterHook :: "env \<Rightarrow> jsobject \<Rightarrow> jsobject \<Rightarrow> (hookArgs \<Rightarrow> error + jsval) \<Rightarrow> jsval list" where
  "owedAfterHook e node rn hook =
     (case hook (hookArgsOf node rn) of
        Inl err \<Rightarrow> []
      | Inr result \<Rightarrow>
          (case reportedIds (additionalNodeIdsOf result) of
             Inl err \<Rightarrow> []
           | Inr ids \<Rightarrow> ids @ owedAfterCreate e node rn))"

fun owed :: "env \<Rightarrow> task \<Rightarrow> jsval list" where
  "owed e (Queued node0 g) =
     (case hookOf e (derivePath e node0) of
        Some hook \<Rightarrow>
          owedAfterHook e (derivePath e node0) (buildRemoteNode e (derivePath e node0)) hook
      | None \<Rightarrow> owedAfterCreate e (derivePath e node0) (buildRemoteNode e (derivePath e node0)))"
| "owed e (AwaitingHook node rn hook) = owedAfterHook e node rn hook"
| "owed e (AwaitingCreateNode node rn) = owedAfterCreate e node rn"

text \<open>
  The text that the expression of the scan matches for an id, and the test that it
  stands in a text at a position: the id is any run of characters other than the double
  quote, the empty one included.
\<close>

definition idPattern :: "string \<Rightarrow> string" where
  "idPattern x = idOpen @ x @ idClose"

definition occursAt :: "string \<Rightarrow> nat \<Rightarrow> string \<Rightarrow> bool" where
  "occursAt s i x =
     (dquote \<notin> set x \<and> take (length (idPattern x)) (drop i s) = idPattern x)"

section \<open>A small site\<close>

text \<open>
  A catalog of five content types and two posts, used to run the definitions on concrete
  input. \<open>posts\<close> has two records; \<open>pages\<close> is lazy; \<open>mediaItems\<close> is the media-item type,
  not lazy; \<open>comments\<close> is excluded; \<open>tags\<close> has no record. The first post embeds two media
  items and carries a \<open>sourceUrl\<close> of its own; \<open>post1String\<close> is its stable serialization.
  The second post has a link, which stands for its own path. The type \<open>Post\<close> has a hook
  that reports the ids \<open>a\<close> and \<open>b\<close>. The digest of the site reads the \<open>id\<close> and the \<open>path\<close>
  of what it is given, so that it tells a record with its path from one without.
\<close>

definition quoted :: "string \<Rightarrow> string" where
  "quoted s = [dquote] @ s @ [dquote]"

definition mkType :: "string \<Rightarrow> string \<Rightarrow> string \<Rightarrow> bool \<Rightarrow> bool \<Rightarrow> queryInfo" where
  "mkType sg pl nm ex lz =
     \<lparr> typeInfo = \<lparr> singularName = sg, pluralName = pl, nodesTypeName = nm \<rparr>,
       nodeListQueries = [pl],
       settings = \<lparr> exclude = ex, lazyNodes = lz \<rparr> \<rparr>"

definition postType :: queryInfo where
  "postType = mkType ''post'' ''posts'' ''Post'' False False"

definition pageType :: queryInfo where
  "pageType = mkType ''page'' ''pages'' ''Page'' False True"

definition mediaType :: queryInfo where
  "mediaType = mkType ''mediaItem'' ''mediaItems'' ''MediaItem'' False False"

definition commentType :: queryInfo where
  "commentType = mkType ''comment'' ''comments'' ''Comment'' True False"

definition tagType :: queryInfo where
  "tagType = mkType ''tag'' ''tags'' ''Tag'' False False"

definition post1 :: jsobject where
  "post1 = [(''id'', JStr ''p1''), (''type'', JStr ''Post''), (''sourceUrl'', JStr ''s''),
            (''featuredImage'', JObj [(''id'', JStr ''m1''), (''sourceUrl'', JStr ''f'')]),
            (''avatar'', JObj [(''id'', JStr ''m2''), (''sourceUrl'', JStr ''a'')])]"

definition post1String :: string where
  "post1String =
     ''{'' @ quoted ''avatar'' @ '':{'' @ quoted ''id'' @ '':'' @ quoted ''m2'' @ '','' @
              quoted ''sourceUrl'' @ '':'' @ quoted ''a'' @ ''},'' @
     quoted ''featuredImage'' @ '':{'' @ quoted ''id'' @ '':'' @ quoted ''m1'' @ '','' @
              quoted ''sourceUrl'' @ '':'' @ quoted ''f'' @ ''},'' @
     quoted ''id'' @ '':'' @ quoted ''p1'' @ '','' @
     quoted ''sourceUrl'' @ '':'' @ quoted ''s'' @ '','' @
     quoted ''type'' @ '':'' @ quoted ''Post'' @ ''}''"

definition post2 :: jsobject where
  "post2 = [(''id'', JStr ''p2''), (''type'', JStr ''Post''), (''link'', JStr ''/x/'')]"

text \<open>The serialization of the second post once its path is assigned.\<close>

definition post2String :: string where
  "post2String =
     ''{'' @ quoted ''id'' @ '':'' @ quoted ''p2'' @ '','' @
     quoted ''link'' @ '':'' @ quoted ''/x/'' @ '','' @
     quoted ''path'' @ '':'' @ quoted ''/x/'' @ '','' @
     quoted ''type'' @ '':'' @ quoted ''Post'' @ ''}''"

definition exampleHook :: "hookArgs \<Rightarrow> error + jsval" where
  "exampleHook args = Inr (JObj [(''additionalNodeIds'', JArr [JStr ''a'', JStr ''b''])])"

definition exampleEnv :: env where
  "exampleEnv =
     \<lparr> nodeQueries = [postType, pageType, mediaType, commentType, tagType],
       pluginOptions = \<lparr> optUrl = ''wp'', verbose = False, mediaItemLazyNodes = False \<rparr>,
       GATSBY_CONCURRENT_DOWNLOAD = Some ''2'',
       toInteger = (\<lambda>v. if v = ''2'' then 2 else 0),
       paginatedWpNodeFetch = (\<lambda>a. if query a = ''posts'' then Inr [post1, post2] else Inr []),
       latency = (\<lambda>qi. length (pluralName (typeInfo qi))),
       fetchGraphql = Inr ''wp'',
       stringify =
         (\<lambda>node. if getField node ''id'' = JStr ''p1'' then post1String
                else if getField node ''id'' = JStr ''p2'' then post2String else ''{}''),
       urlToPath = (\<lambda>v. v),
       createContentDigest = (\<lambda>node. JArr [getField node ''id'', getField node ''path'']),
       buildTypeName = (\<lambda>v. case v of JStr n \<Rightarrow> JStr (''Wp'' @ n) | _ \<Rightarrow> JUndefined),
       getTypeSettingsByType =
         (\<lambda>v. if v = JStr ''Post'' then Some \<lparr> beforeChangeNode = Some exampleHook \<rparr> else None),
       createNode = (\<lambda>node. Inr ()),
       fetchReferencedMediaItemsAndCreateNodes = (\<lambda>ids. Inr ()),
       schedule = [0, 0, 1, 0, 1, 1],
       cacheSet = (\<lambda>k v. Inr ()) \<rparr>"

definition postsGroup :: contentNodeGroup where
  "postsGroup = \<lparr> singular = ''post'', plural = ''posts'', allNodesOfContentType = [post1, post2] \<rparr>"

text \<open>The same site with the media-item type set to lazy.\<close>

definition lazyEnv :: env where
  "lazyEnv = exampleEnv\<lparr>pluginOptions :=
     \<lparr> optUrl = ''wp'', verbose = False, mediaItemLazyNodes = True \<rparr>\<rparr>"

text \<open>The ledger the run on the small site ends with.\<close>

definition exampleLedger :: "jsval list" where
  "exampleLedger =
     [JStr ''a'', JStr ''b'', JStr ''a'', JStr ''b'', JStr ''p2'', JStr ''p1'',
      JStr ''m2'', JStr ''m1'']"

text \<open>The node that the run on the small site commits for the second post.\<close>

definition exampleNode2 :: jsobject where
  "exampleNode2 = buildRemoteNode exampleEnv (derivePath exampleEnv post2)"

text \<open>The small site with a hook for \<open>Post\<close> that resolves to \<open>undefined\<close>.\<close>

definition quietEnv :: env where
  "quietEnv = exampleEnv\<lparr>getTypeSettingsByType :=
     (\<lambda>v. if v = JStr ''Post''
          then Some \<lparr> beforeChangeNode = Some (\<lambda>args. Inr JUndefined) \<rparr> else None)\<rparr>"

text \<open>The small site with the environment variable set to \<open>0\<close>.\<close>

definition zeroEnv :: env where
  "zeroEnv = exampleEnv\<lparr>GATSBY_CONCURRENT_DOWNLOAD := Some ''0''\<rparr>"

text \<open>The small site with a remote source that rejects the query for the posts.\<close>

definition failEnv :: env where
  "failEnv = exampleEnv\<lparr>paginatedWpNodeFetch :=
     (\<lambda>a. if query a = ''posts'' then Inl (Rejected ''timeout'') else Inr [])\<rparr>"

text \<open>The serialization of the first post, cut at the three matches of the expression.\<close>

definition post1Gaps :: "string list" where
  "post1Gaps =
     [''{'' @ quoted ''avatar'' @ '':{'',
      '':'' @ quoted ''a'' @ ''},'' @ quoted ''featuredImage'' @ '':{'',
      '':'' @ quoted ''f'' @ ''},'',
      '':'' @ quoted ''s'' @ '','' @ quoted ''type'' @ '':'' @ quoted ''Post'' @ ''}'']"

section \<open>Facts about the orchestrator\<close>

lemma chunk_Nil [simp]: "chunk [] n = []"
  by (simp add: chunk.simps)

lemma chunk_zero [simp]: "chunk xs 0 = []"
  by (simp add: chunk.simps)

lemma chunk_step: "xs \<noteq> [] \<Longrightarrow> 0 < n \<Longrightarrow> chunk xs n = take n xs # chunk (drop n xs) n"
  by (subst chunk.simps) simp

lemma concat_chunk: "0 < n \<Longrightarrow> concat (chunk xs n) = xs"
proof (induction xs n rule: chunk.induct)
  case (1 xs n)
  show ?case
  proof (cases "xs = []")
    case True
    then show ?thesis by simp
  next
    case False
    with 1 show ?thesis by (simp add: chunk_step)
  qed
qed

lemma ceil_div_small: "0 < n \<Longrightarrow> 0 < (k::nat) \<Longrightarrow> k \<le> n \<Longrightarrow> (k + n - 1) div n = 1"
  by (metis (no_types, lifting) Nat.add_diff_assoc add.commute
    add.right_neutral add_strict_increasing div_add_self1 div_le_dividend
    div_less less_diff_conv2 less_numeral_extra(1))

lemma ceil_div_step:
  "0 < n \<Longrightarrow> \<not> (k::nat) \<le> n \<Longrightarrow> (k + n - 1) div n = Suc ((k - n + n - 1) div n)"
  by (metis (no_types, lifting) Nat.add_diff_assoc One_nat_def Suc_eq_plus1
    Suc_leI add.commute bot_nat_0.extremum div_add_self1 le_add_diff_inverse
    nat_le_linear neq0_conv)

lemma length_chunk: "0 < n \<Longrightarrow> length (chunk xs n) = (length xs + n - 1) div n"
proof (induction xs n rule: chunk.induct)
  case (1 xs n)
  show ?case
  proof (cases "xs = []")
    case True
    then show ?thesis using 1(2) by simp
  next
    case False
    then have ih: "length (chunk (drop n xs) n) = (length (drop n xs) + n - 1) div n"
      using 1 by simp
    show ?thesis
    proof (cases "length xs \<le> n")
      case True
      with False 1(2) ceil_div_small [of n "length xs"] show ?thesis
        by (simp add: chunk_step)
    next
      case gt: False
      with False 1(2) ih ceil_div_step [of n "length xs"] show ?thesis
        by (simp add: chunk_step)
    qed
  qed
qed

lemma nth_chunk:
  "0 < n \<Longrightarrow> i < length (chunk xs n) \<Longrightarrow> chunk xs n ! i = take n (drop (i * n) xs)"
proof (induction xs n arbitrary: i rule: chunk.induct)
  case (1 xs n)
  show ?case
  proof (cases "xs = []")
    case True
    with 1(3) show ?thesis by simp
  next
    case False
    show ?thesis
    proof (cases i)
      case 0
      with False 1(2) show ?thesis by (simp add: chunk_step)
    next
      case (Suc j)
      with False 1(2,3) have "j < length (chunk (drop n xs) n)" by (simp add: chunk_step)
      with 1(1) [of j] False 1(2) have "chunk (drop n xs) n ! j = take n (drop (j * n) (drop n xs))"
        by simp
      with False 1(2) Suc show ?thesis by (simp add: chunk_step add.commute)
    qed
  qed
qed

lemma chunk_nonempty: "b \<in> set (chunk xs n) \<Longrightarrow> b \<noteq> [] \<and> length b \<le> n"
proof (induction xs n rule: chunk.induct)
  case (1 xs n)
  show ?case
  proof (cases "xs = [] \<or> n < 1")
    case True
    with 1(2) show ?thesis by (auto simp: chunk.simps)
  next
    case False
    with 1 show ?thesis by (auto simp: chunk_step)
  qed
qed

lemma fetchStarts_append [simp]: "fetchStarts (xs @ ys) = fetchStarts xs @ fetchStarts ys"
  by (simp add: fetchStarts_def)

lemma fetchStarts_starts [simp]: "fetchStarts (map FetchStart qs) = qs"
  by (induction qs) (simp_all add: fetchStarts_def)

lemma fetchStarts_ends [simp]: "fetchStarts (map FetchEnd qs) = []"
  by (induction qs) (simp_all add: fetchStarts_def)

lemma fetchStarts_failed [simp]: "fetchStarts [FetchFailed qi err] = []"
  by (simp add: fetchStarts_def)

text \<open>What the join of a batch adds to the trace.\<close>

lemma joinBatch_trace:
  "joinBatch e qs s = (r, s') \<Longrightarrow>
     (r = Inr () \<and> fetchTrace s' = fetchTrace s @ map FetchEnd qs) \<or>
     (\<exists>err ended qi rest. r = Inl err \<and> qs = ended @ qi # rest \<and>
        fetchTrace s' = fetchTrace s @ map FetchEnd ended @ [FetchFailed qi err])"
proof (induction qs arbitrary: s)
  case Nil
  then show ?case by auto
next
  case (Cons qi qs)
  show ?case
  proof (cases "fetchWPGQLContentNodes e qi")
    case (Inl err)
    with Cons.prems have "r = Inl err" "fetchTrace s' = fetchTrace s @ map FetchEnd [] @ [FetchFailed qi err]"
      by auto
    then show ?thesis by (metis append_Nil)
  next
    case (Inr g)
    define s1 where "s1 = (case g of None \<Rightarrow> s\<lparr>fetchTrace := fetchTrace s @ [FetchEnd qi]\<rparr>
       | Some grp \<Rightarrow> s\<lparr>contentNodeGroups := contentNodeGroups s @ [grp],
               fetchTrace := fetchTrace s @ [FetchEnd qi]\<rparr>)"
    have tr1: "fetchTrace s1 = fetchTrace s @ [FetchEnd qi]"
      by (simp add: s1_def split: option.splits)
    from Cons.prems Inr have "joinBatch e qs s1 = (r, s')"
      by (simp add: s1_def split: option.splits)
    from Cons.IH [OF this] show ?thesis
    proof
      assume "r = Inr () \<and> fetchTrace s' = fetchTrace s1 @ map FetchEnd qs"
      with tr1 show ?thesis by simp
    next
      assume "\<exists>err ended q rest. r = Inl err \<and> qs = ended @ q # rest \<and>
        fetchTrace s' = fetchTrace s1 @ map FetchEnd ended @ [FetchFailed q err]"
      then obtain err ended q rest where "r = Inl err" "qs = ended @ q # rest"
        "fetchTrace s' = fetchTrace s1 @ map FetchEnd ended @ [FetchFailed q err]" by blast
      with tr1 have "r = Inl err \<and> qi # qs = (qi # ended) @ q # rest \<and>
        fetchTrace s' = fetchTrace s @ map FetchEnd (qi # ended) @ [FetchFailed q err]" by simp
      then show ?thesis by blast
    qed
  qed
qed

lemma runBatch_trace:
  assumes "runBatch e b s = (r, s')"
  shows "(r = Inr () \<and> fetchTrace s' = fetchTrace s @ batchEvents e b) \<or>
     (\<exists>err ended qi rest. r = Inl err \<and>
        sort_key (latency e) (fetched b) = ended @ qi # rest \<and>
        fetchTrace s' = fetchTrace s @ map FetchStart (fetched b) @ map FetchEnd ended @
                        [FetchFailed qi err])"
  using joinBatch_trace [OF assms [unfolded runBatch_def]]
  by (auto simp: batchEvents_def)

lemma runBatches_trace:
  "runBatches e bs s = (r, s') \<Longrightarrow>
     (r = Inr () \<and> fetchTrace s' = fetchTrace s @ concat (map (batchEvents e) bs)) \<or>
     (\<exists>err k ended qi rest. r = Inl err \<and> k < length bs \<and>
        sort_key (latency e) (fetched (bs ! k)) = ended @ qi # rest \<and>
        fetchTrace s' = fetchTrace s @ concat (map (batchEvents e) (take k bs)) @
                        map FetchStart (fetched (bs ! k)) @ map FetchEnd ended @
                        [FetchFailed qi err])"
proof (induction bs arbitrary: s)
  case Nil
  then show ?case by auto
next
  case (Cons b bs)
  obtain r1 s1 where b: "runBatch e b s = (r1, s1)" by fastforce
  from runBatch_trace [OF b] show ?case
  proof
    assume ok: "r1 = Inr () \<and> fetchTrace s1 = fetchTrace s @ batchEvents e b"
    with Cons.prems b have "runBatches e bs s1 = (r, s')" by simp
    from Cons.IH [OF this] show ?thesis
    proof
      assume "r = Inr () \<and> fetchTrace s' = fetchTrace s1 @ concat (map (batchEvents e) bs)"
      with ok show ?thesis by simp
    next
      assume "\<exists>err k ended qi rest. r = Inl err \<and> k < length bs \<and>
        sort_key (latency e) (fetched (bs ! k)) = ended @ qi # rest \<and>
        fetchTrace s' = fetchTrace s1 @ concat (map (batchEvents e) (take k bs)) @
                        map FetchStart (fetched (bs ! k)) @ map FetchEnd ended @
                        [FetchFailed qi err]"
      then obtain err k ended qi rest where f: "r = Inl err" "k < length bs"
        "sort_key (latency e) (fetched (bs ! k)) = ended @ qi # rest"
        "fetchTrace s' = fetchTrace s1 @ concat (map (batchEvents e) (take k bs)) @
                        map FetchStart (fetched (bs ! k)) @ map FetchEnd ended @
                        [FetchFailed qi err]" by blast
      with ok have "r = Inl err \<and> Suc k < length (b # bs) \<and>
        sort_key (latency e) (fetched ((b # bs) ! Suc k)) = ended @ qi # rest \<and>
        fetchTrace s' = fetchTrace s @ concat (map (batchEvents e) (take (Suc k) (b # bs))) @
                        map FetchStart (fetched ((b # bs) ! Suc k)) @ map FetchEnd ended @
                        [FetchFailed qi err]" by simp
      then show ?thesis by blast
    qed
  next
    assume "\<exists>err ended qi rest. r1 = Inl err \<and>
        sort_key (latency e) (fetched b) = ended @ qi # rest \<and>
        fetchTrace s1 = fetchTrace s @ map FetchStart (fetched b) @ map FetchEnd ended @
                        [FetchFailed qi err]"
    then obtain err ended qi rest where f: "r1 = Inl err"
        "sort_key (latency e) (fetched b) = ended @ qi # rest"
        "fetchTrace s1 = fetchTrace s @ map FetchStart (fetched b) @ map FetchEnd ended @
                        [FetchFailed qi err]" by blast
    with Cons.prems b have "r = Inl err" "s' = s1" by auto
    with f have "r = Inl err \<and> 0 < length (b # bs) \<and>
        sort_key (latency e) (fetched ((b # bs) ! 0)) = ended @ qi # rest \<and>
        fetchTrace s' = fetchTrace s @ concat (map (batchEvents e) (take 0 (b # bs))) @
                        map FetchStart (fetched ((b # bs) ! 0)) @ map FetchEnd ended @
                        [FetchFailed qi err]" by simp
    then show ?thesis by blast
  qed
qed

text \<open>Where the groups of the result come from.\<close>

lemma joinBatch_groups:
  "joinBatch e qs s = (r, s') \<Longrightarrow> g \<in> set (contentNodeGroups s') \<Longrightarrow>
     g \<in> set (contentNodeGroups s) \<or> (\<exists>qi \<in> set qs. fetchWPGQLContentNodes e qi = Inr (Some g))"
proof (induction qs arbitrary: s)
  case Nil
  then show ?case by simp
next
  case (Cons qi qs)
  show ?case
  proof (cases "fetchWPGQLContentNodes e qi")
    case (Inl err)
    with Cons.prems show ?thesis by auto
  next
    case (Inr og)
    show ?thesis
    proof (cases og)
      case None
      with Inr Cons.prems
      have "joinBatch e qs (s\<lparr>fetchTrace := fetchTrace s @ [FetchEnd qi]\<rparr>) = (r, s')" by simp
      from Cons.IH [OF this Cons.prems(2)] show ?thesis by auto
    next
      case (Some grp)
      with Inr Cons.prems
      have "joinBatch e qs (s\<lparr>contentNodeGroups := contentNodeGroups s @ [grp],
               fetchTrace := fetchTrace s @ [FetchEnd qi]\<rparr>) = (r, s')" by simp
      from Cons.IH [OF this Cons.prems(2)] Inr Some show ?thesis by auto
    qed
  qed
qed

lemma runBatches_groups:
  "runBatches e bs s = (r, s') \<Longrightarrow> g \<in> set (contentNodeGroups s') \<Longrightarrow>
     g \<in> set (contentNodeGroups s) \<or>
     (\<exists>b \<in> set bs. \<exists>qi \<in> set b. fetchWPGQLContentNodes e qi = Inr (Some g))"
proof (induction bs arbitrary: s)
  case Nil
  then show ?case by simp
next
  case (Cons b bs)
  obtain r1 s1 where b: "runBatch e b s = (r1, s1)" by fastforce
  then have j: "joinBatch e (sort_key (latency e) (fetched b))
       (s\<lparr>fetchTrace := fetchTrace s @ map FetchStart (fetched b)\<rparr>) = (r1, s1)"
    by (simp add: runBatch_def)
  have g1: "g' \<in> set (contentNodeGroups s1) \<Longrightarrow> g' \<in> set (contentNodeGroups s) \<or>
      (\<exists>qi \<in> set b. fetchWPGQLContentNodes e qi = Inr (Some g'))" for g'
    using joinBatch_groups [OF j, of g'] by (auto simp: fetched_def)
  show ?case
  proof (cases r1)
    case (Inl err)
    with Cons.prems b have "s' = s1" by simp
    with g1 [of g] Cons.prems(2) show ?thesis by auto
  next
    case (Inr u)
    with Cons.prems b have "runBatches e bs s1 = (r, s')" by simp
    from Cons.IH [OF this Cons.prems(2)] g1 [of g] show ?thesis by auto
  qed
qed

lemma nonempty_group:
  "fetchWPGQLContentNodes e qi = Inr (Some g) \<Longrightarrow> allNodesOfContentType g \<noteq> []"
  by (auto simp: fetchWPGQLContentNodes_def split: sum.splits if_splits)

lemma fetchListQueries_empty:
  "\<forall>q \<in> set qs. paginatedWpNodeFetch e (pageArgs e qi q) = Inr [] \<Longrightarrow>
     fetchListQueries e qi qs acc = Inr acc"
  by (induction qs arbitrary: acc) simp_all

lemma fetchListQueries_ok:
  "\<forall>q \<in> set qs. \<exists>ns. paginatedWpNodeFetch e (pageArgs e qi q) = Inr ns \<Longrightarrow>
     \<exists>allNodes. fetchListQueries e qi qs acc = Inr allNodes"
proof (induction qs arbitrary: acc)
  case Nil
  then show ?case by simp
next
  case (Cons q qs)
  then obtain ns where "paginatedWpNodeFetch e (pageArgs e qi q) = Inr ns" by auto
  with Cons show ?case by simp
qed

lemma fetchWPGQLContentNodes_ok:
  "\<forall>q \<in> set (nodeListQueries qi). \<exists>ns. paginatedWpNodeFetch e (pageArgs e qi q) = Inr ns \<Longrightarrow>
     \<exists>g. fetchWPGQLContentNodes e qi = Inr g"
  using fetchListQueries_ok [of "nodeListQueries qi" e qi "[]"]
  by (auto simp: fetchWPGQLContentNodes_def)

lemma joinBatch_ok:
  "\<forall>qi \<in> set qs. \<exists>g. fetchWPGQLContentNodes e qi = Inr g \<Longrightarrow> fst (joinBatch e qs s) = Inr ()"
proof (induction qs arbitrary: s)
  case Nil
  then show ?case by simp
next
  case (Cons qi qs)
  then obtain g where "fetchWPGQLContentNodes e qi = Inr g" by auto
  with Cons show ?case by (cases g) simp_all
qed

lemma runBatches_ok:
  "\<forall>b \<in> set bs. \<forall>qi \<in> set b. \<exists>g. fetchWPGQLContentNodes e qi = Inr g \<Longrightarrow>
     fst (runBatches e bs s) = Inr ()"
proof (induction bs arbitrary: s)
  case Nil
  then show ?case by simp
next
  case (Cons b bs)
  obtain r1 s1 where b: "runBatch e b s = (r1, s1)" by fastforce
  have "fst (runBatch e b s) = Inr ()"
    unfolding runBatch_def using Cons.prems by (intro joinBatch_ok) (auto simp: fetched_def)
  with b have "r1 = Inr ()" by simp
  with b Cons show ?case by simp
qed

lemma chunk_subset: "b \<in> set (chunk xs n) \<Longrightarrow> set b \<subseteq> set xs"
proof (cases "n = 0")
  case True
  assume "b \<in> set (chunk xs n)"
  with True show ?thesis by simp
next
  case False
  assume "b \<in> set (chunk xs n)"
  then have "set b \<subseteq> set (concat (chunk xs n))" by auto
  with False show ?thesis by (simp add: concat_chunk)
qed

lemma fetchStarts_Nil [simp]: "fetchStarts [] = []"
  by (simp add: fetchStarts_def)

lemma fetched_not_excluded:
  "fetched (getContentTypeQueryInfos e) =
   filter (\<lambda>qi. \<not> exclude (settings qi) \<and> \<not> lazyNodes (settings qi) \<and>
                nodesTypeName (typeInfo qi) \<noteq> ''MediaItem'') (nodeQueries e)"
  by (auto simp: fetched_def getContentTypeQueryInfos_def skipUpfront_def intro: filter_cong)

lemma fetchStarts_batchEvents [simp]: "fetchStarts (batchEvents e b) = fetched b"
  by (simp add: batchEvents_def)

lemma fetchStarts_concat_batchEvents:
  "fetchStarts (concat (map (batchEvents e) bs)) = concat (map fetched bs)"
  by (induction bs) simp_all

lemma concat_fetched: "concat (map fetched bs) = fetched (concat bs)"
  by (induction bs) (simp_all add: fetched_def)

lemma orchestrator_trace:
  assumes "fetchWPGQLContentNodesByContentType e = (r, tr)"
  shows "\<exists>r' s'. runBatches e (chunkedQueries e)
            \<lparr> contentNodeGroups = [], fetchTrace = [] \<rparr> = (r', s') \<and> tr = fetchTrace s' \<and>
            (case r' of Inl err \<Rightarrow> r = Inl err | Inr u \<Rightarrow> r = Inr (contentNodeGroups s'))"
  using assms
  by (auto simp: fetchWPGQLContentNodesByContentType_def split: prod.splits sum.splits)

lemma orchestrator_ok:
  assumes "fetchWPGQLContentNodesByContentType e = (Inr groups, tr)"
  shows "\<exists>s'. runBatches e (chunkedQueries e)
            \<lparr> contentNodeGroups = [], fetchTrace = [] \<rparr> = (Inr (), s') \<and> tr = fetchTrace s' \<and>
            groups = contentNodeGroups s'"
  using assms
  by (auto simp: fetchWPGQLContentNodesByContentType_def split: prod.splits sum.splits)

lemma chunkSize_default:
  "GATSBY_CONCURRENT_DOWNLOAD e = None \<or> GATSBY_CONCURRENT_DOWNLOAD e = Some [] \<Longrightarrow> chunkSize e = 50"
  by (auto simp: chunkSize_def)

lemma chunkSize_override:
  "GATSBY_CONCURRENT_DOWNLOAD e = Some v \<Longrightarrow> v \<noteq> [] \<Longrightarrow>
     int (chunkSize e) = max (toInteger e v) 0"
  by (simp add: chunkSize_def)

lemma fetchEnds_Nil [simp]: "fetchEnds [] = []"
  by (simp add: fetchEnds_def)

lemma fetchEnds_append [simp]: "fetchEnds (xs @ ys) = fetchEnds xs @ fetchEnds ys"
  by (simp add: fetchEnds_def)

lemma fetchEnds_starts [simp]: "fetchEnds (map FetchStart qs) = []"
  by (induction qs) (simp_all add: fetchEnds_def)

lemma fetchEnds_ends [simp]: "fetchEnds (map FetchEnd qs) = qs"
  by (induction qs) (simp_all add: fetchEnds_def)

lemma batchEvents_balanced:
  "mset (fetchStarts (concat (map (batchEvents e) bs))) =
   mset (fetchEnds (concat (map (batchEvents e) bs)))"
  by (induction bs) (simp_all add: batchEvents_def)

lemma batchEvents_fetchEvent: "ev \<in> set (batchEvents e b) \<Longrightarrow> fetchEvent ev"
  by (auto simp: batchEvents_def)

lemma orchestrator_events:
  assumes "fetchWPGQLContentNodesByContentType e = (r, ft)"
  shows "\<forall>ev \<in> set ft. fetchEvent ev"
proof -
  from orchestrator_trace [OF assms] obtain r' s' where
    run: "runBatches e (chunkedQueries e) \<lparr> contentNodeGroups = [], fetchTrace = [] \<rparr> = (r', s')"
    and tr: "ft = fetchTrace s'"
    by blast
  from runBatches_trace [OF run] show ?thesis
    unfolding tr by (auto dest: batchEvents_fetchEvent in_set_takeD)
qed

lemma orchestrator_complete:
  assumes "fetchWPGQLContentNodesByContentType e = (Inr groups, ft)"
  shows "mset (fetchStarts ft) = mset (fetchEnds ft)"
proof -
  from orchestrator_ok [OF assms] obtain s' where
    run: "runBatches e (chunkedQueries e) \<lparr> contentNodeGroups = [], fetchTrace = [] \<rparr> = (Inr (), s')"
    and tr: "ft = fetchTrace s'"
    by blast
  from runBatches_trace [OF run] have "ft = concat (map (batchEvents e) (chunkedQueries e))"
    unfolding tr by simp
  then show ?thesis by (simp only: batchEvents_balanced)
qed

lemma fetched_filter:
  "fetched b =
     filter (\<lambda>qi. \<not> lazyNodes (settings qi) \<and> nodesTypeName (typeInfo qi) \<noteq> ''MediaItem'') b"
  unfolding fetched_def by (rule filter_cong) (auto simp: skipUpfront_def)

lemma batchEvents_filter:
  "batchEvents e =
     (\<lambda>b. map FetchStart
            (filter (\<lambda>qi. \<not> lazyNodes (settings qi) \<and>
                          nodesTypeName (typeInfo qi) \<noteq> ''MediaItem'') b) @
          map FetchEnd
            (sort_key (latency e)
               (filter (\<lambda>qi. \<not> lazyNodes (settings qi) \<and>
                             nodesTypeName (typeInfo qi) \<noteq> ''MediaItem'') b)))"
  by (rule ext) (simp add: batchEvents_def fetched_filter)

lemma orchestrator_no_batch:
  "chunkSize e = 0 \<Longrightarrow> fetchWPGQLContentNodesByContentType e = (Inr [], [])"
  by (simp add: fetchWPGQLContentNodesByContentType_def chunkedQueries_def)

section \<open>Facts about one unit of work\<close>

lemma set_foldl_setAdd: "set (foldl setAdd xs ys) = set xs \<union> set ys"
  by (induction ys arbitrary: xs) (auto simp: setAdd_def)

lemma distinct_foldl_setAdd: "distinct xs \<Longrightarrow> distinct (foldl setAdd xs ys)"
  by (induction ys arbitrary: xs) (auto simp: setAdd_def)

lemma getField_setField:
  "getField (setField ob k v) k' = (if k' = k then v else getField ob k')"
  by (simp add: getField_def setField_def update_conv')

lemma map_of_setField:
  "map_of (setField ob k v) k' = (if k' = k then Some v else map_of ob k')"
  by (simp add: setField_def update_conv')

lemma getField_derivePath:
  "k \<noteq> ''path'' \<Longrightarrow> getField (derivePath e node) k = getField node k"
  by (simp add: derivePath_def getField_setField)

lemma startUnit_refs:
  "referencedMediaItemNodeIds (snd (startUnit e node g s)) =
     scanReferences e g (derivePath e node) (referencedMediaItemNodeIds s)"
  by (simp add: startUnit_def Let_def split: option.splits)

lemma afterHook_refs:
  "referencedMediaItemNodeIds (snd (afterHook e node rn hook s)) = referencedMediaItemNodeIds s"
  by (auto simp: afterHook_def pushAdditional_def split: sum.splits jsval.splits)

lemma afterCreateNode_refs:
  "referencedMediaItemNodeIds (snd (afterCreateNode e node rn s)) = referencedMediaItemNodeIds s"
  by (auto simp: afterCreateNode_def split: sum.splits)

lemma stripPrefix_Some: "stripPrefix p s = Some r \<longleftrightarrow> s = p @ r"
  by (induction p s rule: stripPrefix.induct) auto

lemma matchAt_Some:
  assumes "matchAt s = Some (m, rest)"
  shows "\<exists>i. s = idOpen @ i @ idClose @ rest \<and> dquote \<notin> set i \<and>
             m = \<lparr> match = idOpen @ i @ idClose, subMatches = [i] \<rparr>"
proof -
  from assms obtain r where r: "stripPrefix idOpen s = Some r"
    by (auto simp: matchAt_def split: option.splits)
  let ?i = "takeWhile (\<lambda>c. c \<noteq> dquote) r"
  from assms r have c: "stripPrefix idClose (dropWhile (\<lambda>c. c \<noteq> dquote) r) = Some rest"
    and m: "m = \<lparr> match = take (length s - length rest) s, subMatches = [?i] \<rparr>"
    by (auto simp: matchAt_def split: option.splits)
  from r have s: "s = idOpen @ r" by (simp add: stripPrefix_Some)
  from c have d: "dropWhile (\<lambda>c. c \<noteq> dquote) r = idClose @ rest" by (simp add: stripPrefix_Some)
  have "r = ?i @ dropWhile (\<lambda>c. c \<noteq> dquote) r" by simp
  with d have r': "r = ?i @ idClose @ rest" by simp
  with s have s': "s = idOpen @ ?i @ idClose @ rest" by simp
  have "length s - length rest = length (idOpen @ ?i @ idClose)"
    by (subst s') simp
  then have "take (length s - length rest) s = idOpen @ ?i @ idClose"
    by (subst (2) s') (simp del: append_assoc add: append_assoc [symmetric])
  moreover have "dquote \<notin> set ?i"
    by (auto dest: set_takeWhileD)
  ultimately show ?thesis using s' m by blast
qed

lemma matchAt_pattern:
  assumes "dquote \<notin> set i"
  shows "matchAt (idOpen @ i @ idClose @ rest) =
           Some (\<lparr> match = idOpen @ i @ idClose, subMatches = [i] \<rparr>, rest)"
proof -
  have p: "stripPrefix idOpen (idOpen @ i @ idClose @ rest) = Some (i @ idClose @ rest)"
    by (simp add: stripPrefix_Some)
  have hd: "idClose @ rest = dquote # tl idClose @ rest"
    by (simp add: idClose_def)
  from assms have nq: "\<forall>c \<in> set i. c \<noteq> dquote" by auto
  have tw: "takeWhile (\<lambda>c. c \<noteq> dquote) (i @ idClose @ rest) = i"
    using nq by (subst hd) simp
  have dw: "dropWhile (\<lambda>c. c \<noteq> dquote) (i @ idClose @ rest) = idClose @ rest"
    using nq by (subst (1 2) hd) simp
  have c: "stripPrefix idClose (idClose @ rest) = Some rest"
    by (simp add: stripPrefix_Some)
  have tk: "take (length (idOpen @ i @ idClose @ rest) - length rest) (idOpen @ i @ idClose @ rest)
            = idOpen @ i @ idClose"
    by simp
  show ?thesis
    unfolding matchAt_def by (simp only: p option.case tw dw c tk)
qed

lemma execall_sound:
  "m \<in> set (execall s) \<Longrightarrow>
     \<exists>pre i post. s = pre @ idOpen @ i @ idClose @ post \<and> dquote \<notin> set i \<and>
        m = \<lparr> match = idOpen @ i @ idClose, subMatches = [i] \<rparr>"
proof (induction s rule: execall.induct)
  case (1 s)
  show ?case
  proof (cases "s = []")
    case True
    with "1.prems" show ?thesis by (simp add: execall.simps)
  next
    case ne: False
    show ?thesis
    proof (cases "matchAt s")
      case None
      with ne "1.prems" have "m \<in> set (execall (tl s))"
        by (subst (asm) execall.simps) simp
      from "1.IH"(1) [OF ne None this] obtain pre i post where
        "tl s = pre @ idOpen @ i @ idClose @ post" "dquote \<notin> set i"
        "m = \<lparr> match = idOpen @ i @ idClose, subMatches = [i] \<rparr>" by blast
      with ne have "s = (hd s # pre) @ idOpen @ i @ idClose @ post \<and> dquote \<notin> set i \<and>
        m = \<lparr> match = idOpen @ i @ idClose, subMatches = [i] \<rparr>"
        by (cases s) auto
      then show ?thesis by blast
    next
      case (Some a)
      obtain m0 rest where a: "a = (m0, rest)" by (cases a)
      from matchAt_Some [OF Some [unfolded a]] obtain i0 where
        s: "s = idOpen @ i0 @ idClose @ rest" and i0: "dquote \<notin> set i0"
        and m0: "m0 = \<lparr> match = idOpen @ i0 @ idClose, subMatches = [i0] \<rparr>" by blast
      from ne Some a "1.prems" have "m = m0 \<or> m \<in> set (execall rest)"
        by (subst (asm) execall.simps) auto
      then show ?thesis
      proof
        assume "m = m0"
        with s i0 m0 have "s = [] @ idOpen @ i0 @ idClose @ rest \<and> dquote \<notin> set i0 \<and>
          m = \<lparr> match = idOpen @ i0 @ idClose, subMatches = [i0] \<rparr>" by simp
        then show ?thesis by blast
      next
        assume "m \<in> set (execall rest)"
        from "1.IH"(2) [OF ne Some a [symmetric] this] obtain pre i post where
          "rest = pre @ idOpen @ i @ idClose @ post" "dquote \<notin> set i"
          "m = \<lparr> match = idOpen @ i @ idClose, subMatches = [i] \<rparr>" by blast
        with s have "s = (idOpen @ i0 @ idClose @ pre) @ idOpen @ i @ idClose @ post \<and>
          dquote \<notin> set i \<and> m = \<lparr> match = idOpen @ i @ idClose, subMatches = [i] \<rparr>" by simp
        then show ?thesis by blast
      qed
    qed
  qed
qed

lemma captured_occurs:
  assumes "i \<in> set (map firstSubMatch (execall s))"
  shows "\<exists>pre post. s = pre @ idOpen @ i @ idClose @ post \<and> dquote \<notin> set i"
proof -
  from assms obtain m where m: "m \<in> set (execall s)" "i = firstSubMatch m" by auto
  from execall_sound [OF m(1)] obtain pre j post where
    "s = pre @ idOpen @ j @ idClose @ post" "dquote \<notin> set j"
    "m = \<lparr> match = idOpen @ j @ idClose, subMatches = [j] \<rparr>" by blast
  with m(2) show ?thesis by (auto simp: firstSubMatch_def)
qed

lemma map_of_derivePath:
  "map_of (derivePath e node) k =
     (if k = ''path'' \<and> truthy (getField node ''link'')
      then Some (urlToPath e (getField node ''link'')) else map_of node k)"
  by (simp add: derivePath_def map_of_setField)

lemma derivePath_no_link: "\<not> truthy (getField node ''link'') \<Longrightarrow> derivePath e node = node"
  by (simp add: derivePath_def)

text \<open>The node that is built from a record, field by field.\<close>

lemma remoteNode_shape:
  fixes e node
  defines "rn \<equiv> buildRemoteNode e (derivePath e node)"
  shows "(\<forall>k. k \<notin> {''id'', ''parent'', ''internal'', ''path''} \<longrightarrow> map_of rn k = map_of node k) \<and>
         dom (map_of node) \<subseteq> dom (map_of rn) \<and>
         getField rn ''id'' = getField node ''id'' \<and>
         map_of rn ''path'' =
           (if truthy (getField node ''link'') then Some (urlToPath e (getField node ''link''))
            else map_of node ''path'') \<and>
         map_of rn ''parent'' = Some JNull \<and>
         map_of rn ''internal'' =
           Some (JObj [(''contentDigest'', createContentDigest e (derivePath e node)),
                       (''type'', buildTypeName e (getField node ''type''))])"
proof -
  have m: "map_of rn k =
      (if k = ''internal'' then
         Some (JObj [(''contentDigest'', createContentDigest e (derivePath e node)),
                     (''type'', buildTypeName e (getField node ''type''))])
       else if k = ''parent'' then Some JNull
       else if k = ''id'' then Some (getField node ''id'')
       else if k = ''path'' \<and> truthy (getField node ''link'')
         then Some (urlToPath e (getField node ''link''))
       else map_of node k)" for k
    by (simp add: rn_def buildRemoteNode_def map_of_setField map_of_derivePath getField_derivePath)
  have "dom (map_of node) \<subseteq> dom (map_of rn)"
    by (auto simp: m)
  moreover have "getField rn ''id'' = getField node ''id''"
    by (simp add: getField_def m)
  ultimately show ?thesis by (simp add: m)
qed

lemma pushAdditional_reported:
  "pushAdditional v s =
     (case reportedIds v of
        Inl err \<Rightarrow> Inl err
      | Inr ids \<Rightarrow> Inr (s\<lparr>createdNodeIds := createdNodeIds s @ ids,
                           totalSideEffectNodes := totalSideEffectNodes s @ ids\<rparr>))"
  by (cases v) (simp_all add: pushAdditional_def reportedIds_def)


lemma additionalNodeIdsOf_none:
  "result = JUndefined \<or> (\<exists>ob. result = JObj ob \<and> map_of ob ''additionalNodeIds'' = None) \<Longrightarrow>
     additionalNodeIdsOf result = JUndefined"
  by (auto simp: additionalNodeIdsOf_def getField_def)

lemma reportedIds_undefined: "reportedIds JUndefined = Inr []"
  by (simp add: reportedIds_def)




lemma idPattern_nonempty: "idPattern x \<noteq> []"
  by (simp add: idPattern_def idOpen_def)

lemma occursAt_iff:
  "occursAt s i x \<longleftrightarrow>
     dquote \<notin> set x \<and> (\<exists>pre post. s = pre @ idPattern x @ post \<and> length pre = i)"
proof
  assume a: "occursAt s i x"
  then have t: "take (length (idPattern x)) (drop i s) = idPattern x" by (simp add: occursAt_def)
  have "i \<le> length s"
  proof (rule ccontr)
    assume "\<not> i \<le> length s"
    then have "drop i s = []" by simp
    with t idPattern_nonempty [of x] show False by simp
  qed
  then have "length (take i s) = i" by simp
  moreover have "s = take i s @ idPattern x @ drop (length (idPattern x)) (drop i s)"
    by (metis append_take_drop_id t)
  ultimately show "dquote \<notin> set x \<and> (\<exists>pre post. s = pre @ idPattern x @ post \<and> length pre = i)"
    using a by (auto simp: occursAt_def)
next
  assume "dquote \<notin> set x \<and> (\<exists>pre post. s = pre @ idPattern x @ post \<and> length pre = i)"
  then show "occursAt s i x" by (auto simp: occursAt_def)
qed

lemma occursAt_Cons: "occursAt (c # s) (Suc i) x = occursAt s i x"
  by (simp add: occursAt_def)

lemma occursAt_append: "occursAt (pre @ s) (length pre + i) x = occursAt s i x"
  by (simp add: occursAt_def)

lemma matchAt_occurs: "matchAt s = Some (m, rest) \<Longrightarrow> \<exists>x. occursAt s 0 x"
proof -
  assume "matchAt s = Some (m, rest)"
  from matchAt_Some [OF this] obtain x where "s = idOpen @ x @ idClose @ rest" "dquote \<notin> set x"
    by blast
  then have "occursAt s 0 x" by (simp add: occursAt_def idPattern_def)
  then show ?thesis ..
qed

text \<open>A stretch of text in which the expression matches nowhere adds no match.\<close>

lemma execall_gap:
  "\<forall>i < length g. \<forall>x. \<not> occursAt (g @ rest) i x \<Longrightarrow> execall (g @ rest) = execall rest"
proof (induction g)
  case Nil
  then show ?case by simp
next
  case (Cons c g)
  have "matchAt (c # g @ rest) = None"
  proof (cases "matchAt (c # g @ rest)")
    case None
    then show ?thesis .
  next
    case (Some a)
    obtain m r where "a = (m, r)" by (cases a)
    with Some matchAt_occurs [of "c # g @ rest" m r] Cons.prems show ?thesis by auto
  qed
  then have "execall ((c # g) @ rest) = execall (g @ rest)"
    by (subst execall.simps) simp
  moreover have "\<forall>i < length g. \<forall>x. \<not> occursAt (g @ rest) i x"
  proof (intro allI impI)
    fix i x assume "i < length g"
    with Cons.prems have "\<not> occursAt ((c # g) @ rest) (Suc i) x" by auto
    then show "\<not> occursAt (g @ rest) i x" by (simp add: occursAt_Cons)
  qed
  ultimately show ?case using Cons.IH by simp
qed

text \<open>An occurrence at the start of the text is matched, and the search goes on after it.\<close>

lemma execall_pattern:
  assumes "dquote \<notin> set x"
  shows "execall (idPattern x @ rest) =
           \<lparr> match = idPattern x, subMatches = [x] \<rparr> # execall rest"
proof -
  have "idPattern x @ rest = idOpen @ x @ idClose @ rest" by (simp add: idPattern_def)
  moreover have "idOpen @ x @ idClose @ rest \<noteq> []" by (simp add: idOpen_def)
  ultimately show ?thesis
    using matchAt_pattern [OF assms, of rest]
    by (subst execall.simps) (simp add: idPattern_def)
qed

text \<open>
  A text that is three occurrences of the expression with text around them, the
  expression matching nowhere else: the matches are the three, in their order.
\<close>

lemma execall_three:
  fixes g0 g1 g2 g3 x1 x2 x3 :: string
  defines "s \<equiv> g0 @ idPattern x1 @ g1 @ idPattern x2 @ g2 @ idPattern x3 @ g3"
  assumes q: "dquote \<notin> set x1" "dquote \<notin> set x2" "dquote \<notin> set x3"
    and only: "\<forall>i x. occursAt s i x \<longrightarrow>
        i \<in> {length g0, length (g0 @ idPattern x1 @ g1),
             length (g0 @ idPattern x1 @ g1 @ idPattern x2 @ g2)}"
  shows "map firstSubMatch (execall s) = [x1, x2, x3]"
proof -
  let ?P1 = "idPattern x1" and ?P2 = "idPattern x2" and ?P3 = "idPattern x3"
  have n1: "0 < length ?P1" and n2: "0 < length ?P2" and n3: "0 < length ?P3"
    using idPattern_nonempty by simp_all
  let ?t1 = "?P1 @ g1 @ ?P2 @ g2 @ ?P3 @ g3"
  let ?t2 = "?P2 @ g2 @ ?P3 @ g3"
  let ?t3 = "?P3 @ g3"
  have a0: "\<forall>i < length g0. \<forall>x. \<not> occursAt (g0 @ ?t1) i x"
  proof (intro allI impI notI)
    fix i x assume i: "i < length g0" and o: "occursAt (g0 @ ?t1) i x"
    from o have "occursAt s i x" by (simp add: s_def)
    with only have "i \<in> {length g0, length (g0 @ ?P1 @ g1), length (g0 @ ?P1 @ g1 @ ?P2 @ g2)}"
      by blast
    with i show False by auto
  qed
  have a1: "\<forall>i < length g1. \<forall>x. \<not> occursAt (g1 @ ?t2) i x"
  proof (intro allI impI notI)
    fix i x assume i: "i < length g1" and o: "occursAt (g1 @ ?t2) i x"
    from o have "occursAt ((g0 @ ?P1) @ g1 @ ?t2) (length (g0 @ ?P1) + i) x"
      by (simp only: occursAt_append)
    then have "occursAt s (length (g0 @ ?P1) + i) x" by (simp add: s_def)
    with only have "length (g0 @ ?P1) + i \<in>
        {length g0, length (g0 @ ?P1 @ g1), length (g0 @ ?P1 @ g1 @ ?P2 @ g2)}" by blast
    with i n1 show False by auto
  qed
  have a2: "\<forall>i < length g2. \<forall>x. \<not> occursAt (g2 @ ?t3) i x"
  proof (intro allI impI notI)
    fix i x assume i: "i < length g2" and o: "occursAt (g2 @ ?t3) i x"
    from o have "occursAt ((g0 @ ?P1 @ g1 @ ?P2) @ g2 @ ?t3) (length (g0 @ ?P1 @ g1 @ ?P2) + i) x"
      by (simp only: occursAt_append)
    then have "occursAt s (length (g0 @ ?P1 @ g1 @ ?P2) + i) x" by (simp add: s_def)
    with only have "length (g0 @ ?P1 @ g1 @ ?P2) + i \<in>
        {length g0, length (g0 @ ?P1 @ g1), length (g0 @ ?P1 @ g1 @ ?P2 @ g2)}" by blast
    with i n1 n2 show False by auto
  qed
  have a3: "\<forall>i < length g3. \<forall>x. \<not> occursAt (g3 @ []) i x"
  proof (intro allI impI notI)
    fix i x assume i: "i < length g3" and o: "occursAt (g3 @ []) i x"
    from o have "occursAt ((g0 @ ?P1 @ g1 @ ?P2 @ g2 @ ?P3) @ g3 @ [])
        (length (g0 @ ?P1 @ g1 @ ?P2 @ g2 @ ?P3) + i) x"
      by (simp only: occursAt_append)
    then have "occursAt s (length (g0 @ ?P1 @ g1 @ ?P2 @ g2 @ ?P3) + i) x" by (simp add: s_def)
    with only have "length (g0 @ ?P1 @ g1 @ ?P2 @ g2 @ ?P3) + i \<in>
        {length g0, length (g0 @ ?P1 @ g1), length (g0 @ ?P1 @ g1 @ ?P2 @ g2)}" by blast
    with n1 n2 n3 show False by auto
  qed
  have e3: "execall g3 = []"
    using execall_gap [OF a3] by (simp add: execall.simps)
  have "execall s = execall ?t1"
    unfolding s_def by (rule execall_gap [OF a0])
  also have "\<dots> = \<lparr> match = ?P1, subMatches = [x1] \<rparr> # execall (g1 @ ?t2)"
    by (rule execall_pattern [OF q(1)])
  also have "execall (g1 @ ?t2) = execall ?t2"
    by (rule execall_gap [OF a1])
  also have "execall ?t2 = \<lparr> match = ?P2, subMatches = [x2] \<rparr> # execall (g2 @ ?t3)"
    by (rule execall_pattern [OF q(2)])
  also have "execall (g2 @ ?t3) = execall ?t3"
    by (rule execall_gap [OF a2])
  also have "execall ?t3 = \<lparr> match = ?P3, subMatches = [x3] \<rparr> # execall g3"
    by (rule execall_pattern [OF q(3)])
  finally show ?thesis by (simp add: e3 firstSubMatch_def)
qed

lemma occursAt_matchAt: "occursAt s i x \<Longrightarrow> i < length s \<and> matchAt (drop i s) \<noteq> None"
proof -
  assume a: "occursAt s i x"
  then obtain pre post where s: "s = pre @ idPattern x @ post" and i: "length pre = i"
    and q: "dquote \<notin> set x" by (auto simp: occursAt_iff)
  from s i have "drop i s = idOpen @ x @ idClose @ post" by (simp add: idPattern_def)
  with matchAt_pattern [OF q, of post] have "matchAt (drop i s) \<noteq> None" by simp
  moreover from s i idPattern_nonempty [of x] have "i < length s" by simp
  ultimately show ?thesis by simp
qed

lemma occurrences_listed:
  assumes "list_all (\<lambda>i. matchAt (drop i s) = None \<or> i \<in> set ps) [0..<length s]"
  shows "\<forall>i x. occursAt s i x \<longrightarrow> i \<in> set ps"
proof (intro allI impI)
  fix i x assume "occursAt s i x"
  from occursAt_matchAt [OF this] have "i < length s" "matchAt (drop i s) \<noteq> None" by simp_all
  moreover from assms have "\<forall>i \<in> {0..<length s}. matchAt (drop i s) = None \<or> i \<in> set ps"
    by (simp add: list_all_iff)
  ultimately show "i \<in> set ps" by force
qed

section \<open>Facts about the queue\<close>

lemma runQueue_start:
  assumes "waiting \<noteq> []" "length running < concurrency" "running = [] \<or> choice sched = 0"
    and "stepTask e (hd waiting) s = (t', s')"
  shows "runQueue e sched running waiting s =
         runQueue e (tl sched) (running @ optTask t') (tl waiting) s'"
  using assms by (subst runQueue.simps) simp

lemma runQueue_advance:
  assumes "running \<noteq> []"
    and "\<not> (waiting \<noteq> [] \<and> length running < concurrency \<and> (running = [] \<or> choice sched = 0))"
    and "stepTask e (running ! (choice sched mod length running)) s = (t', s')"
  shows "runQueue e sched running waiting s =
         runQueue e (tl sched)
           (take (choice sched mod length running) running @ optTask t' @
            drop (Suc (choice sched mod length running)) running) waiting s'"
  using assms by (subst runQueue.simps) auto

lemma runQueue_idle: "runQueue e sched [] [] s = s"
  by (simp add: runQueue.simps)

text \<open>
  An invariant of the queue: a property of the state that every piece of a unit keeps,
  for units that satisfy a property the pieces hand on, holds when the queue is idle.
\<close>

lemma runQueue_invariant:
  assumes "\<forall>t s t' s'. Q t \<longrightarrow> P s \<longrightarrow> stepTask e t s = (t', s') \<longrightarrow>
                   P s' \<and> (\<forall>x \<in> set (optTask t'). Q x)"
    and "\<forall>t \<in> set running \<union> set waiting. Q t"
    and "P s"
  shows "P (runQueue e sched running waiting s)"
  using assms
proof (induction e sched running waiting s rule: runQueue.induct)
  case (1 e sched running waiting s)
  note step = "1.prems"(1)
  note inv = "1.prems"(2,3)
  show ?case
  proof (cases "running = [] \<and> waiting = []")
    case True
    then show ?thesis using inv by (simp add: runQueue_idle)
  next
    case idle: False
    show ?thesis
    proof (cases "waiting \<noteq> [] \<and> length running < concurrency \<and> (running = [] \<or> choice sched = 0)")
      case True
      obtain t' s' where st: "stepTask e (hd waiting) s = (t', s')" by fastforce
      from True have hw: "hd waiting \<in> set waiting" by simp
      with inv have "Q (hd waiting)" by blast
      with step inv(2) st have P': "P s'" and Q': "\<forall>x \<in> set (optTask t'). Q x"
        by blast+
      have allQ: "\<forall>t \<in> set (running @ optTask t') \<union> set (tl waiting). Q t"
        using inv(1) Q' True by (auto dest: list.set_sel(2))
      have "P (runQueue e (tl sched) (running @ optTask t') (tl waiting) s')"
        by (rule "1.IH"(1) [OF idle True st [symmetric] step allQ P'])
      then show ?thesis using runQueue_start [of waiting running sched e s t' s'] True st by simp
    next
      case False
      let ?i = "choice sched mod length running"
      from idle False have ne: "running \<noteq> []" by (auto simp: concurrency_def)
      then have i: "?i < length running" by simp
      obtain t' s' where st: "stepTask e (running ! ?i) s = (t', s')" by fastforce
      from i have "running ! ?i \<in> set running" by simp
      with inv have "Q (running ! ?i)" by blast
      with step inv(2) st have P': "P s'" and Q': "\<forall>x \<in> set (optTask t'). Q x"
        by blast+
      have allQ: "\<forall>t \<in> set (take ?i running @ optTask t' @ drop (Suc ?i) running) \<union> set waiting. Q t"
        using inv(1) Q' by (auto dest: in_set_takeD in_set_dropD)
      have "P (runQueue e (tl sched) (take ?i running @ optTask t' @ drop (Suc ?i) running) waiting s')"
        by (rule "1.IH"(2) [OF idle False st [symmetric] step allQ P'])
      then show ?thesis using runQueue_advance [OF ne False st] by simp
    qed
  qed
qed

lemma stepTask_trace:
  "stepTask e t s = (t', s') \<Longrightarrow>
     \<exists>evs. nodeTrace s' = nodeTrace s @ evs \<and> (\<forall>ev \<in> set evs. unitEvent ev)"
  by (cases t)
     (auto simp: startUnit_def afterHook_def afterCreateNode_def pushAdditional_def Let_def
           split: option.splits sum.splits jsval.splits if_splits)

lemma runQueue_trace:
  "\<exists>evs. nodeTrace (runQueue e sched running waiting s) = nodeTrace s @ evs \<and>
         (\<forall>ev \<in> set evs. unitEvent ev)"
proof (rule runQueue_invariant [where Q = "\<lambda>t. True"])
  show "\<forall>t s0 t' s'. True \<longrightarrow>
      (\<exists>evs. nodeTrace s0 = nodeTrace s @ evs \<and> (\<forall>ev \<in> set evs. unitEvent ev)) \<longrightarrow>
      stepTask e t s0 = (t', s') \<longrightarrow>
      (\<exists>evs. nodeTrace s' = nodeTrace s @ evs \<and> (\<forall>ev \<in> set evs. unitEvent ev)) \<and>
      (\<forall>x \<in> set (optTask t'). True)"
  proof (intro allI impI conjI)
    fix t s0 t' s'
    assume "\<exists>evs. nodeTrace s0 = nodeTrace s @ evs \<and> (\<forall>ev \<in> set evs. unitEvent ev)"
      and "stepTask e t s0 = (t', s')"
    then obtain evs evs' where "nodeTrace s0 = nodeTrace s @ evs" "\<forall>ev \<in> set evs. unitEvent ev"
      "nodeTrace s' = nodeTrace s0 @ evs'" "\<forall>ev \<in> set evs'. unitEvent ev"
      using stepTask_trace by blast
    then have "nodeTrace s' = nodeTrace s @ (evs @ evs') \<and> (\<forall>ev \<in> set (evs @ evs'). unitEvent ev)"
      by auto
    then show "\<exists>evs. nodeTrace s' = nodeTrace s @ evs \<and> (\<forall>ev \<in> set evs. unitEvent ev)" by blast
  qed simp
qed simp_all

lemma stepTask_refs_distinct:
  "stepTask e t s = (t', s') \<Longrightarrow> distinct (referencedMediaItemNodeIds s) \<Longrightarrow>
     distinct (referencedMediaItemNodeIds s')"
proof (cases t)
  case (Queued node g)
  assume "stepTask e t s = (t', s')" "distinct (referencedMediaItemNodeIds s)"
  with Queued startUnit_refs [of e node g s] show ?thesis
    by (auto simp: scanReferences_def distinct_foldl_setAdd)
next
  case (AwaitingHook node rn hook)
  assume "stepTask e t s = (t', s')" "distinct (referencedMediaItemNodeIds s)"
  with AwaitingHook afterHook_refs [of e node rn hook s] show ?thesis by auto
next
  case (AwaitingCreateNode node rn)
  assume "stepTask e t s = (t', s')" "distinct (referencedMediaItemNodeIds s)"
  with AwaitingCreateNode afterCreateNode_refs [of e node rn s] show ?thesis by auto
qed

lemma runQueue_refs_distinct:
  "distinct (referencedMediaItemNodeIds s) \<Longrightarrow>
     distinct (referencedMediaItemNodeIds (runQueue e sched running waiting s))"
  by (rule runQueue_invariant [where Q = "\<lambda>t. True"]) (auto dest: stepTask_refs_distinct)

lemma stepTask_refs_lazy:
  "stepTask e t s = (t', s') \<Longrightarrow> mediaItemLazyNodes (pluginOptions e) \<Longrightarrow>
     referencedMediaItemNodeIds s' = referencedMediaItemNodeIds s"
proof (cases t)
  case (Queued node g)
  assume "stepTask e t s = (t', s')" "mediaItemLazyNodes (pluginOptions e)"
  with Queued startUnit_refs [of e node g s] show ?thesis
    by (auto simp: scanReferences_def)
next
  case (AwaitingHook node rn hook)
  assume "stepTask e t s = (t', s')" "mediaItemLazyNodes (pluginOptions e)"
  with AwaitingHook afterHook_refs [of e node rn hook s] show ?thesis by auto
next
  case (AwaitingCreateNode node rn)
  assume "stepTask e t s = (t', s')" "mediaItemLazyNodes (pluginOptions e)"
  with AwaitingCreateNode afterCreateNode_refs [of e node rn s] show ?thesis by auto
qed

lemma runQueue_refs_lazy:
  "mediaItemLazyNodes (pluginOptions e) \<Longrightarrow>
     referencedMediaItemNodeIds (runQueue e sched running waiting s) = referencedMediaItemNodeIds s"
  by (rule runQueue_invariant [where Q = "\<lambda>t. True"]) (auto dest: stepTask_refs_lazy)

lemma afterIdle_state:
  "afterIdle e s = (r, s') \<Longrightarrow>
     createdNodeIds s' = createdNodeIds s \<and>
     referencedMediaItemNodeIds s' = referencedMediaItemNodeIds s \<and>
     totalSideEffectNodes s' = totalSideEffectNodes s \<and>
     unhandledRejections s' = unhandledRejections s"
  by (auto simp: afterIdle_def Let_def split: if_splits sum.splits)

lemma afterIdle_expands:
  assumes "afterIdle e s = (r, s')"
    and "\<not> mediaItemLazyNodes (pluginOptions e)" and "referencedMediaItemNodeIds s \<noteq> []"
  shows "nodeTrace s' = nodeTrace s @ [FetchReferenced (referencedMediaItemNodeIds s)] \<and>
         (case fetchReferencedMediaItemsAndCreateNodes e (referencedMediaItemNodeIds s) of
            Inl err \<Rightarrow> r = Inl err
          | Inr u \<Rightarrow> r = Inr (createdNodeIds s @ map JStr (referencedMediaItemNodeIds s)))"
  using assms by (auto simp: afterIdle_def Let_def split: sum.splits)

lemma afterIdle_skips:
  assumes "afterIdle e s = (r, s')"
    and "mediaItemLazyNodes (pluginOptions e) \<or> referencedMediaItemNodeIds s = []"
  shows "s' = s \<and> r = Inr (createdNodeIds s)"
  using assms by (auto simp: afterIdle_def Let_def)

lemma createGatsbyNodes_run:
  assumes "fetchGraphql e = Inr wpUrl"
    and "createGatsbyNodesFromWPGQLContentNodes e groups = (r, s)"
  shows "afterIdle e (runQueue e (schedule e) [] (queueTasks groups)
           (initialNodeState\<lparr>nodeTrace := [FetchGraphql]\<rparr>)) = (r, s)"
  using assms by (simp add: createGatsbyNodesFromWPGQLContentNodes_def Let_def)

text \<open>The trace of the materialization stage, however it ends.\<close>

lemma createGatsbyNodes_trace:
  assumes "createGatsbyNodesFromWPGQLContentNodes e groups = (r, s)"
  shows "\<exists>qt xt. nodeTrace s = [FetchGraphql] @ qt @ xt \<and> (\<forall>ev \<in> set qt. unitEvent ev) \<and>
           (xt = [] \<and> (\<forall>ids. r = Inr ids \<longrightarrow> ids = createdNodeIds s) \<or>
            xt = [FetchReferenced (referencedMediaItemNodeIds s)] \<and>
              (\<forall>ids. r = Inr ids \<longrightarrow>
                 ids = createdNodeIds s @ map JStr (referencedMediaItemNodeIds s)))"
proof (cases "fetchGraphql e")
  case (Inl err)
  with assms have "nodeTrace s = [FetchGraphql] @ [] @ []" "r = Inl err"
    by (auto simp: createGatsbyNodesFromWPGQLContentNodes_def Let_def initialNodeState_def)
  then show ?thesis by auto
next
  case (Inr wpUrl)
  let ?s0 = "initialNodeState\<lparr>nodeTrace := [FetchGraphql]\<rparr>"
  let ?q = "runQueue e (schedule e) [] (queueTasks groups) ?s0"
  from createGatsbyNodes_run [OF Inr assms] have idle: "afterIdle e ?q = (r, s)" .
  from afterIdle_state [OF idle]
  have same: "createdNodeIds ?q = createdNodeIds s"
    "referencedMediaItemNodeIds ?q = referencedMediaItemNodeIds s" by simp_all
  obtain qt where qt: "nodeTrace ?q = [FetchGraphql] @ qt" "\<forall>ev \<in> set qt. unitEvent ev"
    using runQueue_trace [of e "schedule e" "[]" "queueTasks groups" ?s0] by auto
  show ?thesis
  proof (cases "\<not> mediaItemLazyNodes (pluginOptions e) \<and> referencedMediaItemNodeIds ?q \<noteq> []")
    case True
    from afterIdle_expands [OF idle] True
    have "nodeTrace s = nodeTrace ?q @ [FetchReferenced (referencedMediaItemNodeIds ?q)]"
      and "\<forall>ids. r = Inr ids \<longrightarrow>
             ids = createdNodeIds ?q @ map JStr (referencedMediaItemNodeIds ?q)"
      by (auto split: sum.splits)
    with qt have "nodeTrace s = [FetchGraphql] @ qt @ [FetchReferenced (referencedMediaItemNodeIds s)] \<and>
       (\<forall>ev \<in> set qt. unitEvent ev) \<and>
       (\<forall>ids. r = Inr ids \<longrightarrow> ids = createdNodeIds s @ map JStr (referencedMediaItemNodeIds s))"
      by (simp add: same)
    then show ?thesis by blast
  next
    case False
    then have "mediaItemLazyNodes (pluginOptions e) \<or> referencedMediaItemNodeIds ?q = []" by auto
    from afterIdle_skips [OF idle this] qt
    have "nodeTrace s = [FetchGraphql] @ qt @ [] \<and> (\<forall>ev \<in> set qt. unitEvent ev) \<and>
       (\<forall>ids. r = Inr ids \<longrightarrow> ids = createdNodeIds s)"
      by auto
    then show ?thesis by blast
  qed
qed

lemma unit_not_cache: "unitEvent ev \<Longrightarrow> ev \<noteq> CacheSet k ids"
  by (cases ev) auto

lemma fetch_not_cache: "fetchEvent ev \<Longrightarrow> ev \<noteq> CacheSet k ids"
  by (cases ev) auto

lemma stepTask_built:
  assumes "taskFrom e groups t"
    and "\<forall>rn. CreateNode rn \<in> set (nodeTrace s) \<longrightarrow> builtFrom e groups rn"
    and "stepTask e t s = (t', s')"
  shows "(\<forall>rn. CreateNode rn \<in> set (nodeTrace s') \<longrightarrow> builtFrom e groups rn) \<and>
         (\<forall>x \<in> set (optTask t'). taskFrom e groups x)"
proof (cases t)
  case (Queued node g)
  with assms(1) have "builtFrom e groups (buildRemoteNode e (derivePath e node))"
    by (auto simp: builtFrom_def)
  with assms(2,3) Queued show ?thesis
    by (auto simp: startUnit_def Let_def optTask_def split: option.splits)
next
  case (AwaitingHook node rn hook)
  with assms show ?thesis
    by (auto simp: afterHook_def pushAdditional_def optTask_def
             split: sum.splits jsval.splits if_splits)
next
  case (AwaitingCreateNode node rn)
  with assms show ?thesis
    by (auto simp: afterCreateNode_def optTask_def split: sum.splits)
qed

lemma runQueue_built:
  assumes "\<forall>rn. CreateNode rn \<in> set (nodeTrace s) \<longrightarrow> builtFrom e groups rn"
  shows "\<forall>rn. CreateNode rn \<in> set (nodeTrace (runQueue e sched [] (queueTasks groups) s)) \<longrightarrow>
              builtFrom e groups rn"
proof (rule runQueue_invariant [where Q = "taskFrom e groups"])
  show "\<forall>t s t' s'. taskFrom e groups t \<longrightarrow>
          (\<forall>rn. CreateNode rn \<in> set (nodeTrace s) \<longrightarrow> builtFrom e groups rn) \<longrightarrow>
          stepTask e t s = (t', s') \<longrightarrow>
          (\<forall>rn. CreateNode rn \<in> set (nodeTrace s') \<longrightarrow> builtFrom e groups rn) \<and>
          (\<forall>x \<in> set (optTask t'). taskFrom e groups x)"
    using stepTask_built by blast
  show "\<forall>t \<in> set [] \<union> set (queueTasks groups). taskFrom e groups t"
    by (auto simp: queueTasks_def)
  show "\<forall>rn. CreateNode rn \<in> set (nodeTrace s) \<longrightarrow> builtFrom e groups rn"
    by (rule assms)
qed

lemma createGatsbyNodes_built:
  assumes "createGatsbyNodesFromWPGQLContentNodes e groups = (r, s)"
    and "CreateNode rn \<in> set (nodeTrace s)"
  shows "builtFrom e groups rn"
proof (cases "fetchGraphql e")
  case (Inl err)
  with assms show ?thesis
    by (auto simp: createGatsbyNodesFromWPGQLContentNodes_def Let_def initialNodeState_def)
next
  case (Inr wpUrl)
  let ?s0 = "initialNodeState\<lparr>nodeTrace := [FetchGraphql]\<rparr>"
  let ?q = "runQueue e (schedule e) [] (queueTasks groups) ?s0"
  from createGatsbyNodes_run [OF Inr assms(1)] have idle: "afterIdle e ?q = (r, s)" .
  then have "nodeTrace s = nodeTrace ?q \<or>
             nodeTrace s = nodeTrace ?q @ [FetchReferenced (referencedMediaItemNodeIds ?q)]"
    by (auto simp: afterIdle_def Let_def split: if_splits sum.splits)
  with assms(2) have "CreateNode rn \<in> set (nodeTrace ?q)" by auto
  moreover have "\<forall>rn. CreateNode rn \<in> set (nodeTrace ?s0) \<longrightarrow> builtFrom e groups rn"
    by simp
  ultimately show ?thesis using runQueue_built by blast
qed



lemma runQueue_single_waiting:
  "runQueue e sched [] [t] s =
     (case stepTask e t s of (t', s') \<Rightarrow> runQueue e (tl sched) (optTask t') [] s')"
proof -
  obtain t' s' where st: "stepTask e t s = (t', s')" by fastforce
  from runQueue_start [of "[t]" "[]" sched e s t' s'] st show ?thesis
    by (simp add: concurrency_def)
qed

lemma runQueue_single_running:
  "runQueue e sched [t] [] s =
     (case stepTask e t s of (t', s') \<Rightarrow> runQueue e (tl sched) (optTask t') [] s')"
proof -
  obtain t' s' where st: "stepTask e t s = (t', s')" by fastforce
  from runQueue_advance [of "[t]" "[]" sched e s t' s'] st show ?thesis
    by simp
qed

section \<open>The small site, run\<close>

lemma example_fetch:
  "fetchWPGQLContentNodesByContentType exampleEnv =
     (Inr [postsGroup],
      [FetchStart postType, FetchEnd postType, FetchStart tagType, FetchEnd tagType])"
  by code_simp

lemma example_chunkSize: "chunkSize exampleEnv = 2"
  by code_simp

lemma example_filter:
  "filter (\<lambda>qi. \<not> exclude (settings qi) \<and> \<not> lazyNodes (settings qi) \<and>
                nodesTypeName (typeInfo qi) \<noteq> ''MediaItem'') (nodeQueries exampleEnv) =
   [postType, tagType]"
  by code_simp

lemma example_batches: "chunkedQueries exampleEnv = [[postType, pageType], [mediaType, tagType]]"
  by code_simp

lemma example_tags: "paginatedWpNodeFetch exampleEnv (pageArgs exampleEnv tagType ''tags'') = Inr []"
  by code_simp

lemma example_tag_queries: "nodeListQueries tagType = [''tags'']"
  by code_simp

lemma example_start_refs:
  "referencedMediaItemNodeIds (snd (stepTask exampleEnv (Queued post1 postsGroup) initialNodeState))
   = [''m2'', ''m1'']"
  by code_simp

lemma lazy_start_refs:
  "referencedMediaItemNodeIds (snd (stepTask lazyEnv (Queued post1 postsGroup) initialNodeState))
   = []"
  by code_simp

lemma lazy_flag: "mediaItemLazyNodes (pluginOptions lazyEnv)"
  by code_simp

lemma eager_flag: "\<not> mediaItemLazyNodes (pluginOptions exampleEnv)"
  by code_simp

lemma lazy_matches: "matchedIds lazyEnv (derivePath lazyEnv post1) = [''m2'', ''m1'']"
  by code_simp

lemma posts_not_media: "plural postsGroup \<noteq> ''mediaItems''"
  by code_simp

lemma example_post1_id: "getField post1 ''id'' = JStr ''p1''"
  by code_simp

lemma example_post1_found:
  "map firstSubMatch (execall (stringify exampleEnv (derivePath exampleEnv post1))) =
     [''m2'', ''m1'', ''p1'']"
  by code_simp

lemma initial_refs: "referencedMediaItemNodeIds initialNodeState = []"
  by (simp add: initialNodeState_def)

lemma example_graphql: "fetchGraphql exampleEnv = Inr ''wp''"
  by code_simp

lemma example_create:
  "createGatsbyNodesFromWPGQLContentNodes exampleEnv [postsGroup] =
     (Inr [JStr ''a'', JStr ''b'', JStr ''a'', JStr ''b'', JStr ''p2'', JStr ''p1'',
           JStr ''m2'', JStr ''m1''],
      \<lparr> createdNodeIds = [JStr ''a'', JStr ''b'', JStr ''a'', JStr ''b'', JStr ''p2'', JStr ''p1''],
        totalSideEffectNodes = [JStr ''a'', JStr ''b'', JStr ''a'', JStr ''b''],
        referencedMediaItemNodeIds = [''m2'', ''m1''],
        nodeTrace =
          [FetchGraphql,
           HookCall (hookArgsOf (derivePath exampleEnv post1)
                       (buildRemoteNode exampleEnv (derivePath exampleEnv post1))),
           HookCall (hookArgsOf (derivePath exampleEnv post2)
                       (buildRemoteNode exampleEnv (derivePath exampleEnv post2))),
           SetStatus 2,
           CreateNode (buildRemoteNode exampleEnv (derivePath exampleEnv post2)),
           SetStatus 4,
           CreateNode (buildRemoteNode exampleEnv (derivePath exampleEnv post1)),
           FetchReferenced [''m2'', ''m1'']],
        unhandledRejections = [] \<rparr>)"
  by code_simp

lemma example_run:
  "fetchAndCreateAllNodes exampleEnv =
     (Inr (),
      [FetchStart postType, FetchEnd postType, FetchStart tagType, FetchEnd tagType,
       FetchGraphql,
       HookCall (hookArgsOf (derivePath exampleEnv post1)
                   (buildRemoteNode exampleEnv (derivePath exampleEnv post1))),
       HookCall (hookArgsOf (derivePath exampleEnv post2)
                   (buildRemoteNode exampleEnv (derivePath exampleEnv post2))),
       SetStatus 2,
       CreateNode (buildRemoteNode exampleEnv (derivePath exampleEnv post2)),
       SetStatus 4,
       CreateNode (buildRemoteNode exampleEnv (derivePath exampleEnv post1)),
       FetchReferenced [''m2'', ''m1''],
       CacheSet CREATED_NODE_IDS
         [JStr ''a'', JStr ''b'', JStr ''a'', JStr ''b'', JStr ''p2'', JStr ''p1'',
          JStr ''m2'', JStr ''m1'']])"
  by code_simp

lemma example_cache_written:
  "CacheSet CREATED_NODE_IDS exampleLedger \<in> set (snd (fetchAndCreateAllNodes exampleEnv))"
  by (simp add: example_run exampleLedger_def)

lemma example_refs:
  "referencedMediaItemNodeIds (snd (createGatsbyNodesFromWPGQLContentNodes exampleEnv [postsGroup]))
   = [''m2'', ''m1'']"
  by (simp add: example_create)

lemma example_expansion:
  "fetchReferencedMediaItemsAndCreateNodes exampleEnv [''m2'', ''m1''] = Inr ()"
  by code_simp

lemma lazy_graphql: "fetchGraphql lazyEnv = Inr ''wp''"
  by code_simp

lemma example_node2_committed:
  "CreateNode exampleNode2 \<in>
     set (nodeTrace (snd (createGatsbyNodesFromWPGQLContentNodes exampleEnv [postsGroup])))"
  by (simp add: example_create exampleNode2_def)

lemma example_records: "allNodesOfContentType postsGroup = [post1, post2]"
  by (simp add: postsGroup_def)

lemma example_node2:
  "exampleNode2 =
     [(''id'', JStr ''p2''), (''type'', JStr ''Post''), (''link'', JStr ''/x/''),
      (''path'', JStr ''/x/''), (''parent'', JNull),
      (''internal'', JObj [(''contentDigest'', JArr [JStr ''p2'', JStr ''/x/'']),
                           (''type'', JStr ''WpPost'')])]"
  by code_simp





lemma quiet_hook:
  "hookOf quietEnv (derivePath quietEnv post2) = Some (\<lambda>args. Inr JUndefined)"
  by (simp add: hookOf_def quietEnv_def exampleEnv_def derivePath_def getField_def post2_def
        setField_def)

lemma example_post2_id: "getField post2 ''id'' = JStr ''p2''"
  by code_simp

lemma quiet_commit: "createNode quietEnv rn = Inr ()"
  by (simp add: quietEnv_def exampleEnv_def)

lemma zero_chunkSize: "chunkSize zeroEnv = 0"
  by code_simp

lemma zero_variable: "GATSBY_CONCURRENT_DOWNLOAD zeroEnv = Some ''0''"
  by (simp add: zeroEnv_def)

lemma zero_fetch: "fetchWPGQLContentNodesByContentType zeroEnv = (Inr [], [])"
  by (rule orchestrator_no_batch [OF zero_chunkSize])

lemma zero_catalog: "nodeQueries zeroEnv = [postType, pageType, mediaType, commentType, tagType]"
  by (simp add: zeroEnv_def exampleEnv_def)

lemma zero_entries: "getContentTypeQueryInfos zeroEnv = [postType, pageType, mediaType, tagType]"
  by code_simp

lemma zero_batches: "chunkedQueries zeroEnv = []"
  by (simp add: chunkedQueries_def zero_chunkSize)

lemma post_eligible:
  "\<not> exclude (settings postType) \<and> \<not> lazyNodes (settings postType) \<and>
   nodesTypeName (typeInfo postType) \<noteq> ''MediaItem''"
  by (simp add: postType_def mkType_def)

lemma tag_eligible:
  "\<not> exclude (settings tagType) \<and> \<not> lazyNodes (settings tagType) \<and>
   nodesTypeName (typeInfo tagType) \<noteq> ''MediaItem''"
  by (simp add: tagType_def mkType_def)

lemma fail_catalog: "nodeQueries failEnv = [postType, pageType, mediaType, commentType, tagType]"
  by (simp add: failEnv_def exampleEnv_def)

lemma fail_chunkSize: "chunkSize failEnv = 2"
  by code_simp

lemma fail_fetch:
  "fetchWPGQLContentNodesByContentType failEnv =
     (Inl (Rejected ''timeout''), [FetchStart postType, FetchFailed postType (Rejected ''timeout'')])"
  by code_simp

lemma example_fetched_batches: "map fetched (chunkedQueries exampleEnv) = [[postType], [tagType]]"
  by code_simp

lemma example_one_batch: "chunk [postType, tagType] 2 = [[postType, tagType]]"
  by code_simp

lemma example_entries: "getContentTypeQueryInfos exampleEnv = [postType, pageType, mediaType, tagType]"
  by code_simp

lemma example_post_tag: "postType \<noteq> tagType"
  by code_simp

lemma example_post1_cut:
  "stringify exampleEnv (derivePath exampleEnv post1) =
     post1Gaps ! 0 @ idPattern ''m2'' @ post1Gaps ! 1 @ idPattern ''m1'' @ post1Gaps ! 2 @
     idPattern ''p1'' @ post1Gaps ! 3"
  by code_simp

lemma example_post1_positions:
  "list_all (\<lambda>i. matchAt (drop i (stringify exampleEnv (derivePath exampleEnv post1))) = None \<or>
       i \<in> set [length (post1Gaps ! 0),
                length (post1Gaps ! 0 @ idPattern ''m2'' @ post1Gaps ! 1),
                length (post1Gaps ! 0 @ idPattern ''m2'' @ post1Gaps ! 1 @ idPattern ''m1'' @
                        post1Gaps ! 2)])
     [0..<length (stringify exampleEnv (derivePath exampleEnv post1))]"
  by code_simp

lemma example_post1_only:
  "\<forall>i x. occursAt (stringify exampleEnv (derivePath exampleEnv post1)) i x \<longrightarrow>
     i \<in> {length (post1Gaps ! 0),
          length (post1Gaps ! 0 @ idPattern ''m2'' @ post1Gaps ! 1),
          length (post1Gaps ! 0 @ idPattern ''m2'' @ post1Gaps ! 1 @ idPattern ''m1'' @
                  post1Gaps ! 2)}"
  using occurrences_listed [OF example_post1_positions] by simp

lemma example_ids_unquoted:
  "dquote \<notin> set ''m2'' \<and> dquote \<notin> set ''m1'' \<and> dquote \<notin> set ''p1''"
  by code_simp

section \<open>The claims\<close>

text \<open>
  C2, as the code has it. \<open>fetchWPGQLContentNodesByContentType\<close> calls
  \<open>fetchWPGQLContentNodes\<close> only for entries of the catalog that are not excluded, not
  lazy and not the media-item type: an excluded, lazy or media-item entry is never
  fetched upfront, whatever happens in the run. When the chunk size is positive and no
  fetch rejects, the entries fetched are exactly those, once each, in the order of the
  catalog. When the chunk size is zero, no entry is fetched.
\<close>

theorem upfront_fetch_iff_eligible:
  assumes "fetchWPGQLContentNodesByContentType e = (r, tr)"
  shows "set (fetchStarts tr) \<subseteq>
           {qi \<in> set (nodeQueries e). \<not> exclude (settings qi) \<and> \<not> lazyNodes (settings qi) \<and>
                nodesTypeName (typeInfo qi) \<noteq> ''MediaItem''} \<and>
         (0 < chunkSize e \<and> (\<exists>groups. r = Inr groups) \<longrightarrow>
            fetchStarts tr =
              filter (\<lambda>qi. \<not> exclude (settings qi) \<and> \<not> lazyNodes (settings qi) \<and>
                nodesTypeName (typeInfo qi) \<noteq> ''MediaItem'') (nodeQueries e)) \<and>
         (chunkSize e = 0 \<longrightarrow> r = Inr [] \<and> tr = [])"
proof -
  let ?bs = "chunkedQueries e"
  let ?ok = "\<lambda>qi. \<not> exclude (settings qi) \<and> \<not> lazyNodes (settings qi) \<and>
                nodesTypeName (typeInfo qi) \<noteq> ''MediaItem''"
  from orchestrator_trace [OF assms] obtain r' s' where
    run: "runBatches e ?bs \<lparr> contentNodeGroups = [], fetchTrace = [] \<rparr> = (r', s')"
    and tr: "tr = fetchTrace s'"
    and r: "case r' of Inl err \<Rightarrow> r = Inl err | Inr u \<Rightarrow> r = Inr (contentNodeGroups s')"
    by blast
  have zero: "chunkSize e = 0 \<longrightarrow> r = Inr [] \<and> tr = []"
    using orchestrator_no_batch [of e] assms by simp
  have sub: "set (fetched b) \<subseteq> {qi \<in> set (nodeQueries e). ?ok qi}" if "b \<in> set ?bs" for b
    using chunk_subset [OF that [unfolded chunkedQueries_def]]
    by (auto simp: fetched_def getContentTypeQueryInfos_def skipUpfront_def)
  from runBatches_trace [OF run]
  have "set (fetchStarts tr) \<subseteq> {qi \<in> set (nodeQueries e). ?ok qi} \<and>
         (0 < chunkSize e \<and> (\<exists>groups. r = Inr groups) \<longrightarrow>
            fetchStarts tr = filter ?ok (nodeQueries e))"
  proof
    assume ok: "r' = Inr () \<and> fetchTrace s' = fetchTrace \<lparr> contentNodeGroups = [], fetchTrace = [] \<rparr> @ concat (map (batchEvents e) ?bs)"
    then have st: "fetchStarts tr = fetched (concat ?bs)"
      using tr by (simp add: fetchStarts_concat_batchEvents concat_fetched)
    have "set (fetchStarts tr) \<subseteq> {qi \<in> set (nodeQueries e). ?ok qi}"
      unfolding st using sub by (auto simp: fetched_def)
    moreover have "fetchStarts tr = filter ?ok (nodeQueries e)" if "0 < chunkSize e"
      using st that by (simp add: chunkedQueries_def concat_chunk fetched_not_excluded)
    ultimately show ?thesis by blast
  next
    assume "\<exists>err k ended qi rest. r' = Inl err \<and> k < length ?bs \<and>
        sort_key (latency e) (fetched (?bs ! k)) = ended @ qi # rest \<and>
        fetchTrace s' = fetchTrace \<lparr> contentNodeGroups = [], fetchTrace = [] \<rparr> @ concat (map (batchEvents e) (take k ?bs)) @
                        map FetchStart (fetched (?bs ! k)) @ map FetchEnd ended @
                        [FetchFailed qi err]"
    then obtain err k ended qi where f: "r' = Inl err" "k < length ?bs"
      "fetchTrace s' = concat (map (batchEvents e) (take k ?bs)) @
                        map FetchStart (fetched (?bs ! k)) @ map FetchEnd ended @
                        [FetchFailed qi err]" by auto
    from f r have "r = Inl err" by simp
    have "fetchStarts tr = concat (map fetched (take k ?bs)) @ fetched (?bs ! k)"
      using f(3) tr by (simp add: fetchStarts_concat_batchEvents)
    moreover have "set (concat (map fetched (take k ?bs))) \<subseteq> {qi \<in> set (nodeQueries e). ?ok qi}"
      using sub by (auto dest: in_set_takeD)
    moreover have "set (fetched (?bs ! k)) \<subseteq> {qi \<in> set (nodeQueries e). ?ok qi}"
      using sub [of "?bs ! k"] f(2) by simp
    ultimately show ?thesis using \<open>r = Inl err\<close> by auto
  qed
  with zero show ?thesis by blast
qed

theorem upfront_fetch_witness:
  "0 < chunkSize exampleEnv \<and>
   fst (fetchWPGQLContentNodesByContentType exampleEnv) = Inr [postsGroup] \<and>
   fetchStarts (snd (fetchWPGQLContentNodesByContentType exampleEnv)) = [postType, tagType] \<and>
   chunkSize zeroEnv = 0 \<and> snd (fetchWPGQLContentNodesByContentType zeroEnv) = []"
  using upfront_fetch_iff_eligible [OF example_fetch] upfront_fetch_iff_eligible [OF zero_fetch]
  by (simp add: example_fetch example_chunkSize example_filter zero_chunkSize zero_fetch)

text \<open>
  C2 as stated gives every entry that is not excluded, not lazy and not the media-item
  type an upfront fetch. On the small site with the environment variable set to \<open>0\<close>
  the chunk size is zero, \<open>chunk\<close> returns no batch and the run resolves with no fetch
  at all, the posts included. On the small site whose remote source rejects the query
  for the posts, the run rejects in the first batch and the tags, in the second batch,
  are never fetched.
\<close>

theorem upfront_fetch_counterexample:
  "postType \<in> set (nodeQueries zeroEnv) \<and>
   \<not> exclude (settings postType) \<and> \<not> lazyNodes (settings postType) \<and>
   nodesTypeName (typeInfo postType) \<noteq> ''MediaItem'' \<and>
   GATSBY_CONCURRENT_DOWNLOAD zeroEnv = Some ''0'' \<and>
   fetchWPGQLContentNodesByContentType zeroEnv = (Inr [], []) \<and>
   tagType \<in> set (nodeQueries failEnv) \<and>
   \<not> exclude (settings tagType) \<and> \<not> lazyNodes (settings tagType) \<and>
   nodesTypeName (typeInfo tagType) \<noteq> ''MediaItem'' \<and>
   fetchWPGQLContentNodesByContentType failEnv =
     (Inl (Rejected ''timeout''),
      [FetchStart postType, FetchFailed postType (Rejected ''timeout'')]) \<and>
   fetchStarts (snd (fetchWPGQLContentNodesByContentType failEnv)) = [postType] \<and>
   postType \<noteq> tagType"
  using post_eligible tag_eligible
  by (simp add: zero_catalog zero_variable zero_fetch fail_catalog fail_fetch example_post_tag
        fetchStarts_def)

text \<open>
  C7. When every list query of a content type yields no record, \<open>fetchWPGQLContentNodes\<close>
  returns \<open>false\<close> and not a group. Every group in the orchestrator's output holds at
  least one record and is the group some entry of the catalog was fetched to, so an entry
  without records has no group there. An empty result is not a failure: when every page
  fetch resolves, with or without records, the orchestrator returns its groups.
\<close>

theorem empty_type_yields_no_group:
  "((\<forall>q \<in> set (nodeListQueries qi). paginatedWpNodeFetch e (pageArgs e qi q) = Inr []) \<longrightarrow>
      fetchWPGQLContentNodes e qi = Inr None) \<and>
   (fetchWPGQLContentNodesByContentType e = (Inr groups, tr) \<longrightarrow>
      (\<forall>g \<in> set groups. allNodesOfContentType g \<noteq> [] \<and>
         (\<exists>qi' \<in> set (nodeQueries e). fetchWPGQLContentNodes e qi' = Inr (Some g)))) \<and>
   ((\<forall>qi' \<in> set (nodeQueries e). \<forall>q \<in> set (nodeListQueries qi').
        \<exists>ns. paginatedWpNodeFetch e (pageArgs e qi' q) = Inr ns) \<longrightarrow>
      (\<exists>groups'. fst (fetchWPGQLContentNodesByContentType e) = Inr groups'))"
proof (intro conjI impI)
  assume "\<forall>q \<in> set (nodeListQueries qi). paginatedWpNodeFetch e (pageArgs e qi q) = Inr []"
  from fetchListQueries_empty [OF this, of "[]"]
  show "fetchWPGQLContentNodes e qi = Inr None"
    by (simp add: fetchWPGQLContentNodes_def)
next
  assume a: "fetchWPGQLContentNodesByContentType e = (Inr groups, tr)"
  from orchestrator_ok [OF a] obtain s' where
    run: "runBatches e (chunkedQueries e) \<lparr> contentNodeGroups = [], fetchTrace = [] \<rparr> = (Inr (), s')"
    and groups: "groups = contentNodeGroups s'"
    by blast
  show "\<forall>g \<in> set groups. allNodesOfContentType g \<noteq> [] \<and>
         (\<exists>qi' \<in> set (nodeQueries e). fetchWPGQLContentNodes e qi' = Inr (Some g))"
  proof
    fix g assume "g \<in> set groups"
    with groups runBatches_groups [OF run, of g]
    obtain b qi' where b: "b \<in> set (chunkedQueries e)" "qi' \<in> set b"
      and g: "fetchWPGQLContentNodes e qi' = Inr (Some g)" by auto
    from chunk_subset [OF b(1) [unfolded chunkedQueries_def]] b(2)
    have "qi' \<in> set (nodeQueries e)" by (auto simp: getContentTypeQueryInfos_def)
    with g nonempty_group [OF g]
    show "allNodesOfContentType g \<noteq> [] \<and>
         (\<exists>qi' \<in> set (nodeQueries e). fetchWPGQLContentNodes e qi' = Inr (Some g))" by blast
  qed
next
  assume a: "\<forall>qi' \<in> set (nodeQueries e). \<forall>q \<in> set (nodeListQueries qi').
        \<exists>ns. paginatedWpNodeFetch e (pageArgs e qi' q) = Inr ns"
  have "\<forall>b \<in> set (chunkedQueries e). \<forall>qi \<in> set b. \<exists>g. fetchWPGQLContentNodes e qi = Inr g"
  proof (intro ballI)
    fix b qi' assume b: "b \<in> set (chunkedQueries e)" "qi' \<in> set b"
    from chunk_subset [OF b(1) [unfolded chunkedQueries_def]] b(2)
    have "qi' \<in> set (nodeQueries e)" by (auto simp: getContentTypeQueryInfos_def)
    with a show "\<exists>g. fetchWPGQLContentNodes e qi' = Inr g"
      by (intro fetchWPGQLContentNodes_ok) blast
  qed
  from runBatches_ok [OF this, of "\<lparr> contentNodeGroups = [], fetchTrace = [] \<rparr>"]
  show "\<exists>groups'. fst (fetchWPGQLContentNodesByContentType e) = Inr groups'"
    by (auto simp: fetchWPGQLContentNodesByContentType_def split: prod.splits sum.splits)
qed

theorem empty_type_witness:
  "fetchWPGQLContentNodes exampleEnv tagType = Inr None \<and>
   fetchWPGQLContentNodesByContentType exampleEnv =
     (Inr [postsGroup],
      [FetchStart postType, FetchEnd postType, FetchStart tagType, FetchEnd tagType]) \<and>
   allNodesOfContentType postsGroup \<noteq> []"
  using empty_type_yields_no_group [of tagType exampleEnv "[postsGroup]"
      "[FetchStart postType, FetchEnd postType, FetchStart tagType, FetchEnd tagType]"]
  by (simp add: example_fetch example_tags example_tag_queries)

text \<open>
  C9, as the code has it. The entries cut into batches are those that
  \<open>getContentTypeQueryInfos\<close> returns, the entries of the catalog that are not excluded:
  lazy and media-item entries take a place in their batch and are skipped inside it.
  The size is 50 when the environment variable is unset or empty, and the integer read
  from it otherwise. For a positive size, batch \<open>i\<close> is the entries from position
  \<open>i * size\<close> on, at most \<open>size\<close> of them and at least one, in the order of the catalog;
  for the size zero there is no batch and nothing is fetched. In the trace, the events
  of the batches follow each other: a batch starts the fetches of its entries that are
  neither lazy nor the media-item type, then all of them complete, and only then the
  next batch starts. When a fetch rejects, the trace ends there and no later batch
  starts.
\<close>

theorem batches_in_order_one_at_a_time:
  assumes "fetchWPGQLContentNodesByContentType e = (r, tr)"
  shows "(GATSBY_CONCURRENT_DOWNLOAD e = None \<or> GATSBY_CONCURRENT_DOWNLOAD e = Some [] \<longrightarrow>
            chunkSize e = 50) \<and>
         (\<forall>v. GATSBY_CONCURRENT_DOWNLOAD e = Some v \<and> v \<noteq> [] \<longrightarrow>
            int (chunkSize e) = max (toInteger e v) 0) \<and>
         (chunkSize e = 0 \<longrightarrow> chunkedQueries e = [] \<and> r = Inr [] \<and> tr = []) \<and>
         (0 < chunkSize e \<longrightarrow>
            concat (chunkedQueries e) =
              filter (\<lambda>qi. \<not> exclude (settings qi)) (nodeQueries e) \<and>
            length (chunkedQueries e) =
              (length (filter (\<lambda>qi. \<not> exclude (settings qi)) (nodeQueries e)) + chunkSize e - 1)
                div chunkSize e \<and>
            (\<forall>i < length (chunkedQueries e).
               chunkedQueries e ! i =
                 take (chunkSize e)
                   (drop (i * chunkSize e)
                      (filter (\<lambda>qi. \<not> exclude (settings qi)) (nodeQueries e))))) \<and>
         (\<forall>b \<in> set (chunkedQueries e). b \<noteq> [] \<and> length b \<le> chunkSize e) \<and>
         ((\<exists>groups. r = Inr groups) \<longrightarrow>
            tr = concat (map
                   (\<lambda>b. map FetchStart
                          (filter (\<lambda>qi. \<not> lazyNodes (settings qi) \<and>
                                        nodesTypeName (typeInfo qi) \<noteq> ''MediaItem'') b) @
                        map FetchEnd
                          (sort_key (latency e)
                             (filter (\<lambda>qi. \<not> lazyNodes (settings qi) \<and>
                                           nodesTypeName (typeInfo qi) \<noteq> ''MediaItem'') b)))
                   (chunkedQueries e))) \<and>
         (\<forall>err. r = Inl err \<longrightarrow>
            (\<exists>k ended qi rest. k < length (chunkedQueries e) \<and>
               sort_key (latency e)
                 (filter (\<lambda>qi. \<not> lazyNodes (settings qi) \<and>
                               nodesTypeName (typeInfo qi) \<noteq> ''MediaItem'')
                    (chunkedQueries e ! k)) = ended @ qi # rest \<and>
               tr = concat (map
                      (\<lambda>b. map FetchStart
                             (filter (\<lambda>qi. \<not> lazyNodes (settings qi) \<and>
                                           nodesTypeName (typeInfo qi) \<noteq> ''MediaItem'') b) @
                           map FetchEnd
                             (sort_key (latency e)
                                (filter (\<lambda>qi. \<not> lazyNodes (settings qi) \<and>
                                              nodesTypeName (typeInfo qi) \<noteq> ''MediaItem'') b)))
                      (take k (chunkedQueries e))) @
                    map FetchStart
                      (filter (\<lambda>qi. \<not> lazyNodes (settings qi) \<and>
                                    nodesTypeName (typeInfo qi) \<noteq> ''MediaItem'')
                         (chunkedQueries e ! k)) @
                    map FetchEnd ended @ [FetchFailed qi err]))"
proof -
  let ?bs = "chunkedQueries e"
  let ?kept = "filter (\<lambda>qi. \<not> exclude (settings qi)) (nodeQueries e)"
  have kept: "getContentTypeQueryInfos e = ?kept"
    by (simp add: getContentTypeQueryInfos_def)
  from orchestrator_trace [OF assms(1)] obtain r' s' where
    run: "runBatches e ?bs \<lparr> contentNodeGroups = [], fetchTrace = [] \<rparr> = (r', s')"
    and tr: "tr = fetchTrace s'"
    and r: "case r' of Inl err \<Rightarrow> r = Inl err | Inr u \<Rightarrow> r = Inr (contentNodeGroups s')"
    by blast
  have size: "(GATSBY_CONCURRENT_DOWNLOAD e = None \<or> GATSBY_CONCURRENT_DOWNLOAD e = Some [] \<longrightarrow>
            chunkSize e = 50) \<and>
         (\<forall>v. GATSBY_CONCURRENT_DOWNLOAD e = Some v \<and> v \<noteq> [] \<longrightarrow>
            int (chunkSize e) = max (toInteger e v) 0)"
    using chunkSize_default [of e] chunkSize_override [of e] by blast
  have zero: "chunkSize e = 0 \<longrightarrow> ?bs = [] \<and> r = Inr [] \<and> tr = []"
    using orchestrator_no_batch [of e] assms by (simp add: chunkedQueries_def)
  have pos: "0 < chunkSize e \<longrightarrow>
      concat ?bs = ?kept \<and>
      length ?bs = (length ?kept + chunkSize e - 1) div chunkSize e \<and>
      (\<forall>i < length ?bs. ?bs ! i = take (chunkSize e) (drop (i * chunkSize e) ?kept))"
  proof
    assume p: "0 < chunkSize e"
    have "concat ?bs = ?kept"
      using p by (simp add: chunkedQueries_def concat_chunk kept)
    moreover have "length ?bs = (length ?kept + chunkSize e - 1) div chunkSize e"
      using p by (simp add: chunkedQueries_def length_chunk kept)
    moreover have "\<forall>i < length ?bs. ?bs ! i = take (chunkSize e) (drop (i * chunkSize e) ?kept)"
      using p by (simp add: chunkedQueries_def nth_chunk kept)
    ultimately show "concat ?bs = ?kept \<and>
      length ?bs = (length ?kept + chunkSize e - 1) div chunkSize e \<and>
      (\<forall>i < length ?bs. ?bs ! i = take (chunkSize e) (drop (i * chunkSize e) ?kept))"
      by blast
  qed
  have bound: "\<forall>b \<in> set ?bs. b \<noteq> [] \<and> length b \<le> chunkSize e"
    using chunk_nonempty [of _ "getContentTypeQueryInfos e" "chunkSize e"]
    by (simp add: chunkedQueries_def)
  have ok: "(\<exists>groups. r = Inr groups) \<longrightarrow> tr = concat (map (batchEvents e) ?bs)"
    using runBatches_trace [OF run] r tr by auto
  have bad: "\<forall>err. r = Inl err \<longrightarrow>
            (\<exists>k ended qi rest. k < length ?bs \<and>
               sort_key (latency e) (fetched (?bs ! k)) = ended @ qi # rest \<and>
               tr = concat (map (batchEvents e) (take k ?bs)) @
                    map FetchStart (fetched (?bs ! k)) @
                    map FetchEnd ended @ [FetchFailed qi err])"
  proof (intro allI impI)
    fix err assume err: "r = Inl err"
    with r have "r' \<noteq> Inr ()" by auto
    with runBatches_trace [OF run] obtain err' k ended qi rest where
      f: "r' = Inl err'" "k < length ?bs"
         "sort_key (latency e) (fetched (?bs ! k)) = ended @ qi # rest"
         "fetchTrace s' = fetchTrace \<lparr> contentNodeGroups = [], fetchTrace = [] \<rparr> @
              concat (map (batchEvents e) (take k ?bs)) @
              map FetchStart (fetched (?bs ! k)) @ map FetchEnd ended @ [FetchFailed qi err']"
      by blast
    from f(1) r err have "err' = err" by simp
    with f tr have "k < length ?bs \<and>
               sort_key (latency e) (fetched (?bs ! k)) = ended @ qi # rest \<and>
               tr = concat (map (batchEvents e) (take k ?bs)) @
                    map FetchStart (fetched (?bs ! k)) @
                    map FetchEnd ended @ [FetchFailed qi err]" by simp
    then show "\<exists>k ended qi rest. k < length ?bs \<and>
               sort_key (latency e) (fetched (?bs ! k)) = ended @ qi # rest \<and>
               tr = concat (map (batchEvents e) (take k ?bs)) @
                    map FetchStart (fetched (?bs ! k)) @
                    map FetchEnd ended @ [FetchFailed qi err]" by blast
  qed
  from size zero pos bound ok [unfolded batchEvents_filter] bad [unfolded batchEvents_filter fetched_filter]
  show ?thesis by blast
qed

theorem batches_witness:
  "chunkSize exampleEnv = 2 \<and>
   chunkedQueries exampleEnv = [[postType, pageType], [mediaType, tagType]] \<and>
   snd (fetchWPGQLContentNodesByContentType exampleEnv) =
     [FetchStart postType, FetchEnd postType, FetchStart tagType, FetchEnd tagType] \<and>
   chunkSize zeroEnv = 0 \<and> chunkedQueries zeroEnv = []"
  using batches_in_order_one_at_a_time [OF example_fetch]
    batches_in_order_one_at_a_time [OF zero_fetch]
  by (simp add: example_chunkSize example_batches example_fetch zero_chunkSize)

text \<open>
  C9 as stated cuts the eligible entries into batches. On the small site the size is 2
  and the entries that are not excluded, not lazy and not the media-item type are the
  posts and the tags, which fill one batch of two: their fetches would start together.
  The code cuts the four entries that are not excluded, so that the posts are fetched
  in the first batch and the tags in the second: the fetch of the tags starts after the
  fetch of the posts has completed. With the environment variable set to \<open>0\<close>, the
  entries are cut into no batch at all.
\<close>

theorem batches_of_eligible_counterexample:
  "chunkSize exampleEnv = 2 \<and>
   filter (\<lambda>qi. \<not> exclude (settings qi) \<and> \<not> lazyNodes (settings qi) \<and>
                nodesTypeName (typeInfo qi) \<noteq> ''MediaItem'') (nodeQueries exampleEnv) =
     [postType, tagType] \<and>
   chunk [postType, tagType] 2 = [[postType, tagType]] \<and>
   getContentTypeQueryInfos exampleEnv = [postType, pageType, mediaType, tagType] \<and>
   chunkedQueries exampleEnv = [[postType, pageType], [mediaType, tagType]] \<and>
   map fetched (chunkedQueries exampleEnv) = [[postType], [tagType]] \<and>
   snd (fetchWPGQLContentNodesByContentType exampleEnv) =
     [FetchStart postType, FetchEnd postType, FetchStart tagType, FetchEnd tagType] \<and>
   GATSBY_CONCURRENT_DOWNLOAD zeroEnv = Some ''0'' \<and>
   getContentTypeQueryInfos zeroEnv = [postType, pageType, mediaType, tagType] \<and>
   chunkedQueries zeroEnv = []"
proof -
  have "snd (fetchWPGQLContentNodesByContentType exampleEnv) =
     [FetchStart postType, FetchEnd postType, FetchStart tagType, FetchEnd tagType]"
    by (simp add: example_fetch)
  then show ?thesis
    by (intro conjI example_chunkSize example_filter example_one_batch example_entries
          example_batches example_fetched_batches zero_variable zero_entries zero_batches)
qed

text \<open>
  C1, as the code has it. For every record, the first piece of its unit of work adds to
  the set of referenced ids the ids that the scan finds in the record's serialization
  (its own id left out) when the group is not the media group and the MediaItem setting
  is not lazy; when the setting is lazy, or in the media group, the set is left as it
  is. The other pieces of the unit never touch the set.
\<close>

theorem scan_runs_when_media_is_eager:
  "referencedMediaItemNodeIds (snd (stepTask e (Queued node g) s)) =
     (if plural g \<noteq> ''mediaItems'' \<and> \<not> mediaItemLazyNodes (pluginOptions e)
      then foldl setAdd (referencedMediaItemNodeIds s)
             (filter (\<lambda>i. JStr i \<noteq> getField node ''id'')
                (map firstSubMatch (execall (stringify e (derivePath e node)))))
      else referencedMediaItemNodeIds s) \<and>
   referencedMediaItemNodeIds (snd (stepTask e (AwaitingHook node' rn hook) s)) =
     referencedMediaItemNodeIds s \<and>
   referencedMediaItemNodeIds (snd (stepTask e (AwaitingCreateNode node' rn) s)) =
     referencedMediaItemNodeIds s"
  by (simp add: startUnit_refs afterHook_refs afterCreateNode_refs scanReferences_def
        matchedIds_def getField_derivePath)

theorem scan_runs_when_media_is_eager_witness:
  "plural postsGroup \<noteq> ''mediaItems'' \<and> \<not> mediaItemLazyNodes (pluginOptions exampleEnv) \<and>
   referencedMediaItemNodeIds (snd (stepTask exampleEnv (Queued post1 postsGroup) initialNodeState))
     = [''m2'', ''m1'']"
  using scan_runs_when_media_is_eager [of exampleEnv post1 postsGroup initialNodeState]
  by (simp del: stepTask.simps
        add: posts_not_media eager_flag example_post1_found example_post1_id initial_refs
             setAdd_def)

text \<open>
  C1 as stated has the two settings the other way round. On the small site with the
  lazy setting, the first post is in a non-media group and its serialization embeds the
  ids \<open>m2\<close> and \<open>m1\<close>, yet the set stays empty; with the eager setting both ids are
  collected.
\<close>

theorem scan_when_lazy_counterexample:
  "plural postsGroup \<noteq> ''mediaItems'' \<and>
   mediaItemLazyNodes (pluginOptions lazyEnv) \<and>
   matchedIds lazyEnv (derivePath lazyEnv post1) = [''m2'', ''m1''] \<and>
   referencedMediaItemNodeIds (snd (stepTask lazyEnv (Queued post1 postsGroup) initialNodeState)) = [] \<and>
   \<not> mediaItemLazyNodes (pluginOptions exampleEnv) \<and>
   referencedMediaItemNodeIds (snd (stepTask exampleEnv (Queued post1 postsGroup) initialNodeState))
     = [''m2'', ''m1'']"
  by (simp del: stepTask.simps add: posts_not_media lazy_flag lazy_matches lazy_start_refs eager_flag example_start_refs)

text \<open>
  C3. Take a record of a non-media group, with the MediaItem setting not lazy, so that
  the scan runs. Let the record's stable serialization hold three occurrences of
  \<open>"id":"<id>","sourceUrl"\<close>, one after the other with any text around them, and
  no other: two with the foreign ids \<open>a\<close> and \<open>b\<close>, distinct, and one with the record's
  own id, in any order. Then the scan finds the three ids, and adds exactly \<open>a\<close> and \<open>b\<close>
  to the set: started from the empty set, the set afterwards holds the two foreign ids,
  each once, and not the record's own id.
\<close>

theorem reference_discovery:
  assumes "plural g \<noteq> ''mediaItems''" and "\<not> mediaItemLazyNodes (pluginOptions e)"
    and "getField node ''id'' = JStr self"
    and "stringify e (derivePath e node) =
           g0 @ idPattern x1 @ g1 @ idPattern x2 @ g2 @ idPattern x3 @ g3"
    and "dquote \<notin> set x1" and "dquote \<notin> set x2" and "dquote \<notin> set x3"
    and "\<forall>i x. occursAt (stringify e (derivePath e node)) i x \<longrightarrow>
           i \<in> {length g0, length (g0 @ idPattern x1 @ g1),
                length (g0 @ idPattern x1 @ g1 @ idPattern x2 @ g2)}"
    and "mset [x1, x2, x3] = mset [a, b, self]"
    and "a \<noteq> self" and "b \<noteq> self" and "a \<noteq> b"
  shows "map firstSubMatch (execall (stringify e (derivePath e node))) = [x1, x2, x3] \<and>
         set (referencedMediaItemNodeIds (snd (stepTask e (Queued node g) s))) =
           set (referencedMediaItemNodeIds s) \<union> {a, b} \<and>
         (referencedMediaItemNodeIds s = [] \<longrightarrow>
            set (referencedMediaItemNodeIds (snd (stepTask e (Queued node g) s))) = {a, b} \<and>
            self \<notin> set (referencedMediaItemNodeIds (snd (stepTask e (Queued node g) s))) \<and>
            distinct (referencedMediaItemNodeIds (snd (stepTask e (Queued node g) s))) \<and>
            length (referencedMediaItemNodeIds (snd (stepTask e (Queued node g) s))) = 2)"
proof -
  let ?found = "map firstSubMatch (execall (stringify e (derivePath e node)))"
  let ?refs = "referencedMediaItemNodeIds (snd (stepTask e (Queued node g) s))"
  have found: "?found = [x1, x2, x3]"
    using execall_three [OF assms(5,6,7), of g0 g1 g2 g3] assms(8)
    unfolding assms(4) by blast
  from assms(9) have "set [x1, x2, x3] = set [a, b, self]" by (rule mset_eq_setD)
  with found have ids: "set ?found = {a, b, self}" by simp
  have refs: "?refs = foldl setAdd (referencedMediaItemNodeIds s)
                 (filter (\<lambda>i. JStr i \<noteq> getField node ''id'') ?found)"
    using assms(1,2)
    by (simp add: startUnit_refs scanReferences_def matchedIds_def getField_derivePath)
  have "set (filter (\<lambda>i. JStr i \<noteq> getField node ''id'') ?found) = {a, b}"
    using assms(3,10,11) ids by auto
  with refs have all: "set ?refs = set (referencedMediaItemNodeIds s) \<union> {a, b}"
    by (simp add: set_foldl_setAdd)
  have fresh: "set ?refs = {a, b} \<and> self \<notin> set ?refs \<and> distinct ?refs \<and> length ?refs = 2"
    if "referencedMediaItemNodeIds s = []"
  proof -
    from that all have s: "set ?refs = {a, b}" by simp
    from that refs have d: "distinct ?refs" by (simp add: distinct_foldl_setAdd)
    from d have "length ?refs = card (set ?refs)" by (simp add: distinct_card)
    with s assms(12) have "length ?refs = 2" by simp
    with s d assms(10,11) show ?thesis by auto
  qed
  from found all fresh show ?thesis by blast
qed

theorem reference_discovery_witness:
  "plural postsGroup \<noteq> ''mediaItems'' \<and> \<not> mediaItemLazyNodes (pluginOptions exampleEnv) \<and>
   getField post1 ''id'' = JStr ''p1'' \<and>
   stringify exampleEnv (derivePath exampleEnv post1) =
     post1Gaps ! 0 @ idPattern ''m2'' @ post1Gaps ! 1 @ idPattern ''m1'' @ post1Gaps ! 2 @
     idPattern ''p1'' @ post1Gaps ! 3 \<and>
   map firstSubMatch (execall (stringify exampleEnv (derivePath exampleEnv post1))) =
     [''m2'', ''m1'', ''p1''] \<and>
   set (referencedMediaItemNodeIds
          (snd (stepTask exampleEnv (Queued post1 postsGroup) initialNodeState))) = {''m2'', ''m1''} \<and>
   ''p1'' \<notin> set (referencedMediaItemNodeIds
          (snd (stepTask exampleEnv (Queued post1 postsGroup) initialNodeState)))"
proof -
  have q: "dquote \<notin> set ''m2''" "dquote \<notin> set ''m1''" "dquote \<notin> set ''p1''"
    using example_ids_unquoted by simp_all
  have m: "mset [''m2'', ''m1'', ''p1''] = mset [''m2'', ''m1'', ''p1'']" by simp
  have d: "''m2'' \<noteq> ''p1''" "''m1'' \<noteq> ''p1''" "''m2'' \<noteq> ''m1''" by simp_all
  from reference_discovery [OF posts_not_media eager_flag example_post1_id example_post1_cut
      q example_post1_only m d, of initialNodeState]
    posts_not_media eager_flag example_post1_id example_post1_cut initial_refs
  show ?thesis by blast
qed

text \<open>
  C5. Let the settings query at the start of \<open>createGatsbyNodesFromWPGQLContentNodes\<close>
  resolve. When the queue is idle, the function calls the fetch of the referenced media
  items exactly when the MediaItem setting is not lazy and the set of referenced ids is
  not empty: the call is then the last event, made once, with the ids of the set (each id
  once), and the function returns the ledger followed by these ids (or rejects, when that
  fetch rejects). In every other case no such call is made and the function returns the
  ledger alone. With the lazy setting the set is always empty.
\<close>

theorem expansion_exactly_when_eager_and_referenced:
  assumes "fetchGraphql e = Inr wpUrl"
    and "createGatsbyNodesFromWPGQLContentNodes e groups = (r, s)"
  shows "distinct (referencedMediaItemNodeIds s) \<and>
         (mediaItemLazyNodes (pluginOptions e) \<longrightarrow> referencedMediaItemNodeIds s = []) \<and>
         (if \<not> mediaItemLazyNodes (pluginOptions e) \<and> referencedMediaItemNodeIds s \<noteq> []
          then (\<exists>evs. nodeTrace s = evs @ [FetchReferenced (referencedMediaItemNodeIds s)] \<and>
                  (\<forall>ids. FetchReferenced ids \<notin> set evs)) \<and>
               (case fetchReferencedMediaItemsAndCreateNodes e (referencedMediaItemNodeIds s) of
                  Inl err \<Rightarrow> r = Inl err
                | Inr u \<Rightarrow> r = Inr (createdNodeIds s @ map JStr (referencedMediaItemNodeIds s)))
          else (\<forall>ids. FetchReferenced ids \<notin> set (nodeTrace s)) \<and>
               r = Inr (createdNodeIds s))"
proof -
  let ?s0 = "initialNodeState\<lparr>nodeTrace := [FetchGraphql]\<rparr>"
  let ?q = "runQueue e (schedule e) [] (queueTasks groups) ?s0"
  from createGatsbyNodes_run [OF assms] have idle: "afterIdle e ?q = (r, s)" .
  from afterIdle_state [OF idle]
  have same: "createdNodeIds ?q = createdNodeIds s"
    "referencedMediaItemNodeIds ?q = referencedMediaItemNodeIds s" by simp_all
  have "distinct (referencedMediaItemNodeIds ?q)"
    by (rule runQueue_refs_distinct) (simp add: initialNodeState_def)
  then have d: "distinct (referencedMediaItemNodeIds s)" by (simp only: same)
  have lz: "referencedMediaItemNodeIds s = []" if "mediaItemLazyNodes (pluginOptions e)"
  proof -
    have "referencedMediaItemNodeIds ?q = referencedMediaItemNodeIds ?s0"
      by (rule runQueue_refs_lazy [OF that])
    then show ?thesis by (simp only: same) (simp add: initialNodeState_def)
  qed
  obtain evs where evs: "nodeTrace ?q = nodeTrace ?s0 @ evs" "\<forall>ev \<in> set evs. unitEvent ev"
    using runQueue_trace by blast
  have noexp: "FetchReferenced ids \<notin> set (nodeTrace ?q)" for ids
    using evs by auto
  show ?thesis
  proof (cases "\<not> mediaItemLazyNodes (pluginOptions e) \<and> referencedMediaItemNodeIds s \<noteq> []")
    case True
    with same have c: "\<not> mediaItemLazyNodes (pluginOptions e)" "referencedMediaItemNodeIds ?q \<noteq> []"
      by simp_all
    from afterIdle_expands [OF idle c, unfolded same] noexp
    have "\<exists>evs. nodeTrace s = evs @ [FetchReferenced (referencedMediaItemNodeIds s)] \<and>
                  (\<forall>ids. FetchReferenced ids \<notin> set evs)"
      and "case fetchReferencedMediaItemsAndCreateNodes e (referencedMediaItemNodeIds s) of
                  Inl err \<Rightarrow> r = Inl err
                | Inr u \<Rightarrow> r = Inr (createdNodeIds s @ map JStr (referencedMediaItemNodeIds s))"
      by auto
    with d lz show ?thesis unfolding if_P [OF True] by blast
  next
    case False
    with same have "mediaItemLazyNodes (pluginOptions e) \<or> referencedMediaItemNodeIds ?q = []"
      by auto
    from afterIdle_skips [OF idle this] noexp
    have "(\<forall>ids. FetchReferenced ids \<notin> set (nodeTrace s)) \<and> r = Inr (createdNodeIds s)" by auto
    with d lz show ?thesis unfolding if_not_P [OF False] by blast
  qed
qed

theorem expansion_witness:
  "fetchGraphql exampleEnv = Inr ''wp'' \<and> \<not> mediaItemLazyNodes (pluginOptions exampleEnv) \<and>
   referencedMediaItemNodeIds (snd (createGatsbyNodesFromWPGQLContentNodes exampleEnv [postsGroup]))
     = [''m2'', ''m1''] \<and>
   fst (createGatsbyNodesFromWPGQLContentNodes exampleEnv [postsGroup]) =
     Inr (createdNodeIds (snd (createGatsbyNodesFromWPGQLContentNodes exampleEnv [postsGroup])) @
          [JStr ''m2'', JStr ''m1'']) \<and>
   mediaItemLazyNodes (pluginOptions lazyEnv) \<and>
   fst (createGatsbyNodesFromWPGQLContentNodes lazyEnv [postsGroup]) =
     Inr (createdNodeIds (snd (createGatsbyNodesFromWPGQLContentNodes lazyEnv [postsGroup])))"
proof -
  let ?x = "createGatsbyNodesFromWPGQLContentNodes exampleEnv [postsGroup]"
  let ?y = "createGatsbyNodesFromWPGQLContentNodes lazyEnv [postsGroup]"
  have x: "?x = (fst ?x, snd ?x)" and y: "?y = (fst ?y, snd ?y)" by simp_all
  from expansion_exactly_when_eager_and_referenced [OF example_graphql x]
  have "fst ?x = Inr (createdNodeIds (snd ?x) @ [JStr ''m2'', JStr ''m1''])"
    by (simp add: example_refs example_expansion eager_flag)
  moreover from expansion_exactly_when_eager_and_referenced [OF lazy_graphql y]
  have "fst ?y = Inr (createdNodeIds (snd ?y))"
    by (simp add: lazy_flag)
  ultimately show ?thesis
    by (simp add: example_graphql eager_flag lazy_flag example_refs)
qed

text \<open>
  C8. Whenever \<open>fetchAndCreateAllNodes\<close> writes to the cache, the trace of the run is:
  the events of the orchestrator, which returned its groups, every fetch it started
  resolved; then the settings query and the events of the units of work of the queue;
  then the fetch of the referenced media items, when there is one; then, last, the one
  write, under the key \<open>CREATED_NODE_IDS\<close>, of the ids that the materialization stage
  returned (the ledger, followed by the referenced ids when they were fetched). A run
  that ends well has written. So no unit of work starts before the upfront fetching is
  over, the expansion fetch comes after the last event of the queue, and a run that
  fails in a stage writes nothing.
\<close>

theorem stages_in_order:
  assumes "fetchAndCreateAllNodes e = (r, tr)"
  shows "(\<forall>k ids. CacheSet k ids \<in> set tr \<longrightarrow>
            (\<exists>groups ft s qt xt.
               fetchWPGQLContentNodesByContentType e = (Inr groups, ft) \<and>
               createGatsbyNodesFromWPGQLContentNodes e groups = (Inr ids, s) \<and>
               k = CREATED_NODE_IDS \<and>
               tr = ft @ [FetchGraphql] @ qt @ xt @ [CacheSet CREATED_NODE_IDS ids] \<and>
               (\<forall>ev \<in> set ft. fetchEvent ev) \<and>
               mset (fetchStarts ft) = mset (fetchEnds ft) \<and>
               (\<forall>ev \<in> set qt. unitEvent ev) \<and>
               (xt = [] \<and> ids = createdNodeIds s \<or>
                xt = [FetchReferenced (referencedMediaItemNodeIds s)] \<and>
                  ids = createdNodeIds s @ map JStr (referencedMediaItemNodeIds s)))) \<and>
         (r = Inr () \<longrightarrow> (\<exists>ids. CacheSet CREATED_NODE_IDS ids \<in> set tr))"
proof -
  obtain r1 ft where orch: "fetchWPGQLContentNodesByContentType e = (r1, ft)" by fastforce
  note fev = orchestrator_events [OF orch]
  show ?thesis
  proof (cases r1)
    case (Inl err)
    with assms orch have "tr = ft" "r = Inl err" by (auto simp: fetchAndCreateAllNodes_def)
    with fev show ?thesis by (auto dest: fetch_not_cache)
  next
    case (Inr groups)
    obtain r2 s where mat: "createGatsbyNodesFromWPGQLContentNodes e groups = (r2, s)"
      by fastforce
    from createGatsbyNodes_trace [OF mat] obtain qt xt where
      nt: "nodeTrace s = [FetchGraphql] @ qt @ xt" and qt: "\<forall>ev \<in> set qt. unitEvent ev"
      and xt: "xt = [] \<and> (\<forall>ids. r2 = Inr ids \<longrightarrow> ids = createdNodeIds s) \<or>
            xt = [FetchReferenced (referencedMediaItemNodeIds s)] \<and>
              (\<forall>ids. r2 = Inr ids \<longrightarrow>
                 ids = createdNodeIds s @ map JStr (referencedMediaItemNodeIds s))"
      by blast
    have nocache: "CacheSet k ids \<notin> set (ft @ nodeTrace s)" for k ids
      using fev qt xt nt by (auto dest: fetch_not_cache unit_not_cache)
    show ?thesis
    proof (cases r2)
      case (Inl err)
      with assms orch Inr mat have "tr = ft @ nodeTrace s" "r = Inl err"
        by (auto simp: fetchAndCreateAllNodes_def)
      with nocache show ?thesis by auto
    next
      case ok: (Inr created)
      with assms orch Inr mat
      have tr: "tr = ft @ nodeTrace s @ [CacheSet CREATED_NODE_IDS created]"
        by (auto simp: fetchAndCreateAllNodes_def split: sum.splits)
      have one: "k = CREATED_NODE_IDS \<and> ids = created" if "CacheSet k ids \<in> set tr" for k ids
      proof -
        from that tr have "CacheSet k ids \<in> set (ft @ nodeTrace s) \<or>
            CacheSet k ids = CacheSet CREATED_NODE_IDS created" by auto
        with nocache [of k ids] show ?thesis by simp
      qed
      from xt ok have xt': "xt = [] \<and> created = createdNodeIds s \<or>
                xt = [FetchReferenced (referencedMediaItemNodeIds s)] \<and>
                  created = createdNodeIds s @ map JStr (referencedMediaItemNodeIds s)" by auto
      have str: "\<exists>groups ft s qt xt.
               fetchWPGQLContentNodesByContentType e = (Inr groups, ft) \<and>
               createGatsbyNodesFromWPGQLContentNodes e groups = (Inr created, s) \<and>
               CREATED_NODE_IDS = CREATED_NODE_IDS \<and>
               tr = ft @ [FetchGraphql] @ qt @ xt @ [CacheSet CREATED_NODE_IDS created] \<and>
               (\<forall>ev \<in> set ft. fetchEvent ev) \<and>
               mset (fetchStarts ft) = mset (fetchEnds ft) \<and>
               (\<forall>ev \<in> set qt. unitEvent ev) \<and>
               (xt = [] \<and> created = createdNodeIds s \<or>
                xt = [FetchReferenced (referencedMediaItemNodeIds s)] \<and>
                  created = createdNodeIds s @ map JStr (referencedMediaItemNodeIds s))"
      proof (intro exI conjI)
        show "fetchWPGQLContentNodesByContentType e = (Inr groups, ft)"
          using orch Inr by simp
        show "createGatsbyNodesFromWPGQLContentNodes e groups = (Inr created, s)"
          using mat ok by simp
        show "tr = ft @ [FetchGraphql] @ qt @ xt @ [CacheSet CREATED_NODE_IDS created]"
          using tr nt by simp
        show "\<forall>ev \<in> set ft. fetchEvent ev" by (rule fev)
        show "mset (fetchStarts ft) = mset (fetchEnds ft)"
          using orch Inr by (intro orchestrator_complete [of e groups]) simp
        show "\<forall>ev \<in> set qt. unitEvent ev" by (rule qt)
        show "xt = [] \<and> created = createdNodeIds s \<or>
                xt = [FetchReferenced (referencedMediaItemNodeIds s)] \<and>
                  created = createdNodeIds s @ map JStr (referencedMediaItemNodeIds s)"
          by (rule xt')
      qed simp
      have first: "\<forall>k ids. CacheSet k ids \<in> set tr \<longrightarrow>
            (\<exists>groups ft s qt xt.
               fetchWPGQLContentNodesByContentType e = (Inr groups, ft) \<and>
               createGatsbyNodesFromWPGQLContentNodes e groups = (Inr ids, s) \<and>
               k = CREATED_NODE_IDS \<and>
               tr = ft @ [FetchGraphql] @ qt @ xt @ [CacheSet CREATED_NODE_IDS ids] \<and>
               (\<forall>ev \<in> set ft. fetchEvent ev) \<and>
               mset (fetchStarts ft) = mset (fetchEnds ft) \<and>
               (\<forall>ev \<in> set qt. unitEvent ev) \<and>
               (xt = [] \<and> ids = createdNodeIds s \<or>
                xt = [FetchReferenced (referencedMediaItemNodeIds s)] \<and>
                  ids = createdNodeIds s @ map JStr (referencedMediaItemNodeIds s)))"
      proof (intro allI impI)
        fix k ids assume "CacheSet k ids \<in> set tr"
        from one [OF this] have "k = CREATED_NODE_IDS" "ids = created" by simp_all
        with str show "\<exists>groups ft s qt xt.
               fetchWPGQLContentNodesByContentType e = (Inr groups, ft) \<and>
               createGatsbyNodesFromWPGQLContentNodes e groups = (Inr ids, s) \<and>
               k = CREATED_NODE_IDS \<and>
               tr = ft @ [FetchGraphql] @ qt @ xt @ [CacheSet CREATED_NODE_IDS ids] \<and>
               (\<forall>ev \<in> set ft. fetchEvent ev) \<and>
               mset (fetchStarts ft) = mset (fetchEnds ft) \<and>
               (\<forall>ev \<in> set qt. unitEvent ev) \<and>
               (xt = [] \<and> ids = createdNodeIds s \<or>
                xt = [FetchReferenced (referencedMediaItemNodeIds s)] \<and>
                  ids = createdNodeIds s @ map JStr (referencedMediaItemNodeIds s))"
          by (simp only:)
      qed
      have "CacheSet CREATED_NODE_IDS created \<in> set tr" using tr by simp
      then have second: "r = Inr () \<longrightarrow> (\<exists>ids. CacheSet CREATED_NODE_IDS ids \<in> set tr)" by blast
      from first second show ?thesis by (rule conjI)
    qed
  qed
qed

theorem stages_in_order_witness:
  "CacheSet CREATED_NODE_IDS exampleLedger \<in> set (snd (fetchAndCreateAllNodes exampleEnv)) \<and>
   (\<exists>groups ft s qt xt.
       fetchWPGQLContentNodesByContentType exampleEnv = (Inr groups, ft) \<and>
       createGatsbyNodesFromWPGQLContentNodes exampleEnv groups = (Inr exampleLedger, s) \<and>
       snd (fetchAndCreateAllNodes exampleEnv) =
         ft @ [FetchGraphql] @ qt @ xt @ [CacheSet CREATED_NODE_IDS exampleLedger] \<and>
       (\<forall>ev \<in> set ft. fetchEvent ev) \<and>
       mset (fetchStarts ft) = mset (fetchEnds ft) \<and>
       (\<forall>ev \<in> set qt. unitEvent ev) \<and>
       (xt = [] \<and> exampleLedger = createdNodeIds s \<or>
        xt = [FetchReferenced (referencedMediaItemNodeIds s)] \<and>
          exampleLedger = createdNodeIds s @ map JStr (referencedMediaItemNodeIds s)))"
proof -
  have "fetchAndCreateAllNodes exampleEnv =
          (fst (fetchAndCreateAllNodes exampleEnv), snd (fetchAndCreateAllNodes exampleEnv))"
    by simp
  from stages_in_order [OF this] example_cache_written
  show ?thesis by blast
qed

text \<open>
  C4. Every node that a run of \<open>createGatsbyNodesFromWPGQLContentNodes\<close> hands to
  \<open>actions.createNode\<close>, under any schedule of the queue, is the node built for a record
  of one of the groups, and:
  \<^item> it has every field of the record; the fields other than \<open>id\<close>, \<open>parent\<close>, \<open>internal\<close> and
    \<open>path\<close> have the record's values, \<open>id\<close> reads as the record's \<open>id\<close>, and \<open>path\<close> is the
    path derived from the record's \<open>link\<close> when it has one (the first step of the unit
    assigns it to the record itself) and the record's own \<open>path\<close> otherwise;
  \<^item> \<open>parent\<close> is \<open>null\<close>;
  \<^item> \<open>internal.type\<close> is \<open>buildTypeName\<close> of the record's \<open>type\<close>;
  \<^item> \<open>internal.contentDigest\<close> is \<open>createContentDigest\<close> of the record as it stands when the
    node is built, which is the record as fetched when it has no link, and never the node
    with its \<open>parent\<close> and \<open>internal\<close>.
\<close>

theorem committed_node_shape:
  assumes "createGatsbyNodesFromWPGQLContentNodes e groups = (r, s)"
    and "CreateNode rn \<in> set (nodeTrace s)"
  shows "\<exists>g \<in> set groups. \<exists>node \<in> set (allNodesOfContentType g).
           rn = buildRemoteNode e (derivePath e node) \<and>
           (\<forall>k. k \<notin> {''id'', ''parent'', ''internal'', ''path''} \<longrightarrow> map_of rn k = map_of node k) \<and>
           dom (map_of node) \<subseteq> dom (map_of rn) \<and>
           getField rn ''id'' = getField node ''id'' \<and>
           map_of rn ''path'' =
             (if truthy (getField node ''link'') then Some (urlToPath e (getField node ''link''))
              else map_of node ''path'') \<and>
           map_of rn ''parent'' = Some JNull \<and>
           map_of rn ''internal'' =
             Some (JObj [(''contentDigest'', createContentDigest e (derivePath e node)),
                         (''type'', buildTypeName e (getField node ''type''))]) \<and>
           (\<not> truthy (getField node ''link'') \<longrightarrow> derivePath e node = node)"
proof -
  from createGatsbyNodes_built [OF assms] obtain g node where
    g: "g \<in> set groups" "node \<in> set (allNodesOfContentType g)"
    and rn: "rn = buildRemoteNode e (derivePath e node)"
    by (auto simp: builtFrom_def)
  from remoteNode_shape [of e node] derivePath_no_link [of node e] rn
  have "rn = buildRemoteNode e (derivePath e node) \<and>
           (\<forall>k. k \<notin> {''id'', ''parent'', ''internal'', ''path''} \<longrightarrow> map_of rn k = map_of node k) \<and>
           dom (map_of node) \<subseteq> dom (map_of rn) \<and>
           getField rn ''id'' = getField node ''id'' \<and>
           map_of rn ''path'' =
             (if truthy (getField node ''link'') then Some (urlToPath e (getField node ''link''))
              else map_of node ''path'') \<and>
           map_of rn ''parent'' = Some JNull \<and>
           map_of rn ''internal'' =
             Some (JObj [(''contentDigest'', createContentDigest e (derivePath e node)),
                         (''type'', buildTypeName e (getField node ''type''))]) \<and>
           (\<not> truthy (getField node ''link'') \<longrightarrow> derivePath e node = node)"
    by blast
  with g show ?thesis by blast
qed

theorem committed_node_witness:
  "CreateNode exampleNode2 \<in>
     set (nodeTrace (snd (createGatsbyNodesFromWPGQLContentNodes exampleEnv [postsGroup]))) \<and>
   exampleNode2 =
     [(''id'', JStr ''p2''), (''type'', JStr ''Post''), (''link'', JStr ''/x/''),
      (''path'', JStr ''/x/''), (''parent'', JNull),
      (''internal'', JObj [(''contentDigest'', JArr [JStr ''p2'', JStr ''/x/'']),
                           (''type'', JStr ''WpPost'')])] \<and>
   map_of exampleNode2 ''parent'' = Some JNull \<and>
   (\<exists>node \<in> set [post1, post2].
      exampleNode2 = buildRemoteNode exampleEnv (derivePath exampleEnv node) \<and>
      getField exampleNode2 ''id'' = getField node ''id'' \<and>
      map_of exampleNode2 ''internal'' =
        Some (JObj [(''contentDigest'', createContentDigest exampleEnv (derivePath exampleEnv node)),
                    (''type'', buildTypeName exampleEnv (getField node ''type''))]))"
proof -
  let ?x = "createGatsbyNodesFromWPGQLContentNodes exampleEnv [postsGroup]"
  have x: "?x = (fst ?x, snd ?x)" by simp
  from committed_node_shape [OF x example_node2_committed]
  obtain g node where g: "g \<in> set [postsGroup]" and node: "node \<in> set (allNodesOfContentType g)"
    and rn: "exampleNode2 = buildRemoteNode exampleEnv (derivePath exampleEnv node)"
    and idf: "getField exampleNode2 ''id'' = getField node ''id''"
    and parent: "map_of exampleNode2 ''parent'' = Some JNull"
    and internal: "map_of exampleNode2 ''internal'' =
        Some (JObj [(''contentDigest'', createContentDigest exampleEnv (derivePath exampleEnv node)),
                    (''type'', buildTypeName exampleEnv (getField node ''type''))])"
    by blast
  from g node have "node \<in> set [post1, post2]" by (simp add: example_records)
  with rn idf internal have "\<exists>node \<in> set [post1, post2].
      exampleNode2 = buildRemoteNode exampleEnv (derivePath exampleEnv node) \<and>
      getField exampleNode2 ''id'' = getField node ''id'' \<and>
      map_of exampleNode2 ''internal'' =
        Some (JObj [(''contentDigest'', createContentDigest exampleEnv (derivePath exampleEnv node)),
                    (''type'', buildTypeName exampleEnv (getField node ''type''))])"
    by (intro bexI [of _ node]) simp_all
  with example_node2_committed example_node2 parent show ?thesis by (intro conjI)
qed



text \<open>
  C10. Take a record whose type has a \<open>beforeChangeNode\<close> hook that resolves, for this
  record, to \<open>undefined\<close> or to an object without \<open>additionalNodeIds\<close>. The piece of the
  unit after the hook, from any state, does not reject: it leaves the ledger and the list
  of side-effect ids as they are, reports the count and calls the commit action. Run
  alone to the end, the unit appends exactly the record's own id to the ledger when the
  commit resolves (and only the commit's rejection, when it rejects, is recorded); in
  any run of the queue that is all the unit adds to the ledger.
\<close>

theorem hook_without_ids:
  assumes "hookOf e (derivePath e node) = Some hook"
    and "hook (hookArgsOf (derivePath e node) (buildRemoteNode e (derivePath e node))) = Inr result"
    and "result = JUndefined \<or> (\<exists>ob. result = JObj ob \<and> map_of ob ''additionalNodeIds'' = None)"
  shows "stepTask e (AwaitingHook (derivePath e node) (buildRemoteNode e (derivePath e node)) hook) s1 =
           (Some (AwaitingCreateNode (derivePath e node) (buildRemoteNode e (derivePath e node))),
            s1\<lparr>nodeTrace := nodeTrace s1 @
                 [SetStatus (length (totalSideEffectNodes s1)),
                  CreateNode (buildRemoteNode e (derivePath e node))]\<rparr>) \<and>
         runQueue e sched [] [Queued node g] s =
           (case createNode e (buildRemoteNode e (derivePath e node)) of
              Inl err \<Rightarrow>
                s\<lparr>referencedMediaItemNodeIds :=
                     scanReferences e g (derivePath e node) (referencedMediaItemNodeIds s),
                  nodeTrace := nodeTrace s @
                    [HookCall (hookArgsOf (derivePath e node) (buildRemoteNode e (derivePath e node))),
                     SetStatus (length (totalSideEffectNodes s)),
                     CreateNode (buildRemoteNode e (derivePath e node))],
                  unhandledRejections := unhandledRejections s @ [err]\<rparr>
            | Inr u \<Rightarrow>
                s\<lparr>referencedMediaItemNodeIds :=
                     scanReferences e g (derivePath e node) (referencedMediaItemNodeIds s),
                  nodeTrace := nodeTrace s @
                    [HookCall (hookArgsOf (derivePath e node) (buildRemoteNode e (derivePath e node))),
                     SetStatus (length (totalSideEffectNodes s)),
                     CreateNode (buildRemoteNode e (derivePath e node))],
                  createdNodeIds := createdNodeIds s @ [getField node ''id'']\<rparr>) \<and>
         owed e (Queued node g) =
           (case createNode e (buildRemoteNode e (derivePath e node)) of
              Inl err \<Rightarrow> []
            | Inr u \<Rightarrow> [getField node ''id''])"
proof -
  let ?n = "derivePath e node"
  let ?rn = "buildRemoteNode e ?n"
  have idf: "getField ?n ''id'' = getField node ''id''"
    by (simp add: getField_derivePath)
  from assms(3) have none: "additionalNodeIdsOf result = JUndefined"
    by (rule additionalNodeIdsOf_none)
  have hookStep: "stepTask e (AwaitingHook ?n ?rn hook) s' =
           (Some (AwaitingCreateNode ?n ?rn),
            s'\<lparr>nodeTrace := nodeTrace s' @
                 [SetStatus (length (totalSideEffectNodes s')), CreateNode ?rn]\<rparr>)" for s'
    using assms(2) none
    by (simp add: afterHook_def pushAdditional_reported reportedIds_undefined)
  have start: "stepTask e (Queued node g) s =
      (Some (AwaitingHook ?n ?rn hook),
       s\<lparr>referencedMediaItemNodeIds := scanReferences e g ?n (referencedMediaItemNodeIds s),
         nodeTrace := nodeTrace s @ [HookCall (hookArgsOf ?n ?rn)]\<rparr>)"
    using assms(1) by (simp add: startUnit_def Let_def)
  have "runQueue e sched [] [Queued node g] s =
          (case createNode e ?rn of
              Inl err \<Rightarrow>
                s\<lparr>referencedMediaItemNodeIds := scanReferences e g ?n (referencedMediaItemNodeIds s),
                  nodeTrace := nodeTrace s @
                    [HookCall (hookArgsOf ?n ?rn), SetStatus (length (totalSideEffectNodes s)),
                     CreateNode ?rn],
                  unhandledRejections := unhandledRejections s @ [err]\<rparr>
            | Inr u \<Rightarrow>
                s\<lparr>referencedMediaItemNodeIds := scanReferences e g ?n (referencedMediaItemNodeIds s),
                  nodeTrace := nodeTrace s @
                    [HookCall (hookArgsOf ?n ?rn), SetStatus (length (totalSideEffectNodes s)),
                     CreateNode ?rn],
                  createdNodeIds := createdNodeIds s @ [getField node ''id'']\<rparr>)"
    by (simp add: runQueue_single_waiting runQueue_single_running runQueue_idle start hookStep
          optTask_def afterCreateNode_def idf
          del: stepTask.simps(1,2) split: sum.splits)
  moreover have "owed e (Queued node g) =
           (case createNode e ?rn of Inl err \<Rightarrow> [] | Inr u \<Rightarrow> [getField node ''id''])"
    using assms(1,2) none
    by (simp add: owedAfterHook_def owedAfterCreate_def reportedIds_undefined idf split: sum.splits)
  ultimately show ?thesis using hookStep [of s1] by (intro conjI)
qed

theorem hook_without_ids_witness:
  "hookOf quietEnv (derivePath quietEnv post2) = Some (\<lambda>args. Inr JUndefined) \<and>
   createdNodeIds (runQueue quietEnv [] [] [Queued post2 postsGroup] initialNodeState) = [JStr ''p2''] \<and>
   totalSideEffectNodes (runQueue quietEnv [] [] [Queued post2 postsGroup] initialNodeState) = [] \<and>
   unhandledRejections (runQueue quietEnv [] [] [Queued post2 postsGroup] initialNodeState) = []"
proof -
  have "(\<lambda>args. Inr JUndefined :: error + jsval)
          (hookArgsOf (derivePath quietEnv post2)
             (buildRemoteNode quietEnv (derivePath quietEnv post2))) = Inr JUndefined"
    by simp
  from hook_without_ids [OF quiet_hook this, of _ "[]" postsGroup initialNodeState]
  have "runQueue quietEnv [] [] [Queued post2 postsGroup] initialNodeState =
     initialNodeState\<lparr>referencedMediaItemNodeIds :=
         scanReferences quietEnv postsGroup (derivePath quietEnv post2)
           (referencedMediaItemNodeIds initialNodeState),
       nodeTrace := nodeTrace initialNodeState @
         [HookCall (hookArgsOf (derivePath quietEnv post2)
                      (buildRemoteNode quietEnv (derivePath quietEnv post2))),
          SetStatus (length (totalSideEffectNodes initialNodeState)),
          CreateNode (buildRemoteNode quietEnv (derivePath quietEnv post2))],
       createdNodeIds := createdNodeIds initialNodeState @ [getField post2 ''id'']\<rparr>"
    by (simp add: quiet_commit)
  then have "createdNodeIds (runQueue quietEnv [] [] [Queued post2 postsGroup] initialNodeState) =
        [JStr ''p2'']"
    and "totalSideEffectNodes (runQueue quietEnv [] [] [Queued post2 postsGroup] initialNodeState) = []"
    and "unhandledRejections (runQueue quietEnv [] [] [Queued post2 postsGroup] initialNodeState) = []"
    by (simp_all add: initialNodeState_def example_post2_id)
  with quiet_hook show ?thesis by (intro conjI)
qed

end
